theory Spec2Isabelle
  imports Main "HOL-Library.Word" "HOL-Library.Signed_Division"
begin

unbundle bit_operations_syntax

section \<open>Memory and the two uses of memcpy\<close>

text \<open>
  Packer.h works on raw \<open>char\<close> buffers through pointers it bumps. The model keeps a flat
  byte store and passes it explicitly; a pointer is an address of that store. The file
  states that it only works on little-endian machines, so the object representation of an
  integer is its bytes, least significant first. Floating-point values and pointers are
  only ever copied with memcpy or reinterpreted, so they are represented by their object
  representation (bit pattern) of the same size.

  What C leaves undefined is a \<open>fault\<close> of the model: a memcpy that writes past the
  destination object, a read that leaves part of the result uninitialised, a signed
  negation that overflows, and a failed \<open>assert\<close>.
\<close>

type_synonym addr = int
type_synonym byte = "8 word"
type_synonym mem = "addr \<Rightarrow> byte"

datatype fault = Overrun | Indeterminate | SignedOverflow | AssertionFailed

text \<open>\<open>memcpy(dst, &val, n)\<close>: the first \<open>n\<close> bytes of the object \<open>val\<close>.\<close>

definition memcpy_from :: "mem \<Rightarrow> addr \<Rightarrow> 'a::len word \<Rightarrow> nat \<Rightarrow> mem" where
  "memcpy_from m dst val n =
     (\<lambda>a. if dst \<le> a \<and> a < dst + int n
          then ucast (drop_bit (8 * nat (a - dst)) val) else m a)"

text \<open>\<open>memcpy(&obj, src, n)\<close> into an object whose other bytes are zero.\<close>

fun memcpy_to :: "mem \<Rightarrow> addr \<Rightarrow> nat \<Rightarrow> 'a::len word" where
  "memcpy_to m src 0 = 0"
| "memcpy_to m src (Suc n) = ucast (m src) OR push_bit 8 (memcpy_to m (src + 1) n)"

text \<open>Unary minus on a signed integer; the most negative value has no negation.\<close>

definition negate :: "'a::len word \<Rightarrow> 'a word option" where
  "negate x = (if sint x = - (2 ^ (LENGTH('a) - 1)) then None else Some (- x))"

section \<open>pack\<close>

text \<open>
  The template for unsigned integral \<open>T\<close>; \<open>sizeof(T)\<close> is \<open>LENGTH('a) div 8\<close>. The
  comparisons are made in \<open>unsigned long\<close> (64 bits). The result is the store, the bumped
  buffer pointer and the returned code.
\<close>

definition pack_unsigned :: "mem \<Rightarrow> addr \<Rightarrow> 'a::len word \<Rightarrow> mem \<times> addr \<times> nat" where
  "pack_unsigned m buffer val =
     (let v = (ucast val :: 64 word);
          numBytes = (if v < push_bit 8 1 then 1
                      else if v < push_bit 16 1 then 2
                      else if v < push_bit 24 1 then 3
                      else if v < push_bit 32 1 then 4
                      else if v < push_bit 40 1 then 5
                      else if v < push_bit 48 1 then 6
                      else if v < push_bit 56 1 then 7
                      else 8 :: nat)
      in (memcpy_from m buffer val (LENGTH('a) div 8), buffer + int numBytes, numBytes))"

definition pack_int32 :: "mem \<Rightarrow> addr \<Rightarrow> 32 word \<Rightarrow> fault + mem \<times> addr \<times> nat" where
  "pack_int32 m buffer val =
     (if 0 \<le>s val \<or> val \<le>s - push_bit 24 1 then Inr (pack_unsigned m buffer val)
      else (case negate val of
              None \<Rightarrow> Inl SignedOverflow
            | Some nval \<Rightarrow>
                (case pack_unsigned m buffer nval of
                   (m', buffer', code) \<Rightarrow> Inr (m', buffer', 8 + code))))"

definition pack_int64 :: "mem \<Rightarrow> addr \<Rightarrow> 64 word \<Rightarrow> fault + mem \<times> addr \<times> nat" where
  "pack_int64 m buffer val =
     (if 0 \<le>s val \<or> val \<le>s - push_bit 56 1 then Inr (pack_unsigned m buffer val)
      else (case negate val of
              None \<Rightarrow> Inl SignedOverflow
            | Some nval \<Rightarrow>
                (case pack_unsigned m buffer nval of
                   (m', buffer', code) \<Rightarrow> Inr (m', buffer', 8 + code))))"

definition pack_longlong :: "mem \<Rightarrow> addr \<Rightarrow> 64 word \<Rightarrow> fault + mem \<times> addr \<times> nat" where
  "pack_longlong m buffer val =
     (if 0 \<le>s val \<or> val \<le>s - push_bit 56 1 then Inr (pack_unsigned m buffer val)
      else (case negate val of
              None \<Rightarrow> Inl SignedOverflow
            | Some nval \<Rightarrow>
                (case pack_unsigned m buffer nval of
                   (m', buffer', code) \<Rightarrow> Inr (m', buffer', 8 + code))))"

definition pack_pointer :: "mem \<Rightarrow> addr \<Rightarrow> 64 word \<Rightarrow> mem \<times> addr \<times> nat" where
  "pack_pointer m inp pointer = pack_unsigned m inp pointer"

definition pack_floating :: "mem \<Rightarrow> addr \<Rightarrow> 'a::len word \<Rightarrow> mem \<times> addr \<times> nat" where
  "pack_floating m buffer val =
     (memcpy_from m buffer val (LENGTH('a) div 8),
      buffer + int (LENGTH('a) div 8),
      LENGTH('a) div 8)"

section \<open>unpack\<close>

text \<open>
  The template for integral \<open>T\<close>. \<open>packed\<close> is an \<open>int64_t\<close> initialised to zero;
  \<open>static_cast<T>\<close> keeps the low bits. The result is the value and the bumped pointer.
\<close>

definition unpack :: "mem \<Rightarrow> addr \<Rightarrow> 8 word \<Rightarrow> fault + 'a::len word \<times> addr" where
  "unpack m inp packResult =
     (if packResult \<le> 8 then
        (let packed = (memcpy_to m inp (unat packResult) :: 64 word)
         in Inr (ucast packed, inp + int (unat packResult)))
      else
        (let bytes = (if packResult = 0 then 16 else unat (0x0f AND (packResult - 8)))
         in if 8 < bytes then Inl Overrun
            else (case negate (memcpy_to m inp bytes :: 64 word) of
                    None \<Rightarrow> Inl SignedOverflow
                  | Some npacked \<Rightarrow> Inr (ucast npacked, inp + int bytes))))"

definition unpack_pointer :: "mem \<Rightarrow> addr \<Rightarrow> 8 word \<Rightarrow> fault + 64 word \<times> addr" where
  "unpack_pointer m inp packNibble = unpack m inp packNibble"

text \<open>
  The template for floating-point \<open>T\<close>. In the first branch a \<open>float\<close> is read and
  returned as a \<open>T\<close>; that conversion is the parameter \<open>from_float\<close> (the identity
  when \<open>T\<close> is \<open>float\<close>).
\<close>

definition unpack_floating ::
  "(32 word \<Rightarrow> 'a::len word) \<Rightarrow> mem \<Rightarrow> addr \<Rightarrow> 8 word \<Rightarrow> fault + 'a word \<times> addr" where
  "unpack_floating from_float m inp packNibble =
     (if packNibble = 4 then Inr (from_float (memcpy_to m inp 4), inp + 4)
      else
        (let bytes = (if packNibble = 0 then 16 else unat packNibble)
         in if LENGTH('a) div 8 < bytes then Inl Overrun
            else if bytes < LENGTH('a) div 8 then Inl Indeterminate
            else Inr (memcpy_to m inp bytes, inp + int bytes)))"

section \<open>getSizeOfPackedValues\<close>

text \<open>
  \<open>TwoNibbles\<close> is one byte holding two 4-bit fields; on the little-endian ABI the file
  targets the first bit-field occupies the low four bits.
\<close>

definition first :: "byte \<Rightarrow> byte" where
  "first b = b AND 0x0F"

definition second :: "byte \<Rightarrow> byte" where
  "second b = drop_bit 4 b"

function getSize_loop :: "mem \<Rightarrow> addr \<Rightarrow> 32 word \<Rightarrow> 32 word \<Rightarrow> 32 word \<Rightarrow> 32 word" where
  "getSize_loop m nibbles numNibbles i sz =
     (if i < numNibbles div 2 then
        (let f = first (m (nibbles + uint i));
             s = second (m (nibbles + uint i));
             sz1 = sz + (ucast f + ucast s);
             sz2 = (if f = 0 then sz1 + 16 else sz1);
             sz3 = (if f > 0x8 then sz2 - 8 else sz2);
             sz4 = (if s = 0 then sz3 + 16 else sz3);
             sz5 = (if s > 0x8 then sz4 - 8 else sz4)
         in getSize_loop m nibbles numNibbles (i + 1) sz5)
      else sz)"
  by pat_completeness auto
termination
proof (relation "measure (\<lambda>(m, nibbles, numNibbles, i, sz). unat (numNibbles div 2) - unat i)")
  show "wf (measure (\<lambda>(m, nibbles, numNibbles, i, sz). unat (numNibbles div 2) - unat i))"
    by simp
next
  fix m :: mem and nibbles :: addr and numNibbles i sz f s sz1 sz2 sz3 sz4 sz5 :: "32 word"
  assume "i < numNibbles div 2"
  then have less: "unat i < unat (numNibbles div 2)"
    by (simp add: word_less_nat_alt)
  moreover have "unat (numNibbles div 2) < 2 ^ 32"
    using unsigned_less [of "numNibbles div 2"] by simp
  ultimately have "unat i + 1 < 2 ^ 32"
    by linarith
  then have "unat (i + 1) = unat i + 1"
    by (simp add: unat_word_ariths)
  with less show "((m, nibbles, numNibbles, i + 1, sz5), (m, nibbles, numNibbles, i, sz))
      \<in> measure (\<lambda>(m, nibbles, numNibbles, i, sz). unat (numNibbles div 2) - unat i)"
    by simp
qed

declare getSize_loop.simps [simp del]

definition getSizeOfPackedValues :: "mem \<Rightarrow> addr \<Rightarrow> 32 word \<Rightarrow> 32 word" where
  "getSizeOfPackedValues m nibbles numNibbles =
     (let sz = getSize_loop m nibbles numNibbles 0 0
      in if numNibbles AND 0x1 \<noteq> 0 then
           (let f = first (m (nibbles + uint (numNibbles div 2)));
                sz1 = sz + ucast f;
                sz2 = (if f = 0 then sz1 + 16 else sz1)
            in if f > 0x8 then sz2 - 8 else sz2)
         else sz)"

section \<open>Nibbler\<close>

record Nibbler =
  nibblePosition :: addr
  onFirstNibble :: bool
  numNibbles :: int
  currPackedValue :: addr
  endOfValues :: addr

text \<open>
  The constructor. \<open>numNibbles\<close> is a C \<open>int\<close>; \<open>/\<close> truncates, and the call of
  getSizeOfPackedValues converts the count to \<open>uint32_t\<close>.
\<close>

definition Nibbler_ctor :: "mem \<Rightarrow> addr \<Rightarrow> int \<Rightarrow> Nibbler" where
  "Nibbler_ctor m nibbleStart n =
     \<lparr> nibblePosition = nibbleStart,
       onFirstNibble = True,
       numNibbles = n,
       currPackedValue = nibbleStart + (n + 1) sdiv 2,
       endOfValues = nibbleStart + (n + 1) sdiv 2
                       + uint (getSizeOfPackedValues m nibbleStart (word_of_int n)) \<rparr>"

definition getEndOfPackedArguments :: "Nibbler \<Rightarrow> addr" where
  "getEndOfPackedArguments nb = endOfValues nb"

section \<open>The supported types\<close>

text \<open>
  A value together with its C++ type: the overload of \<open>pack\<close> that a call selects and the
  instance of \<open>unpack\<close> and \<open>getNext\<close> that the caller names. The signed types carry
  their two's complement bit pattern.
\<close>

datatype ctype = TU8 | TU16 | TU32 | TU64 | TI32 | TI64 | TLongLong | TPointer | TFloat | TDouble

datatype pval =
    VU8 "8 word" | VU16 "16 word" | VU32 "32 word" | VU64 "64 word"
  | VI32 "32 word" | VI64 "64 word" | VLongLong "64 word"
  | VPointer "64 word" | VFloat "32 word" | VDouble "64 word"

fun type_of :: "pval \<Rightarrow> ctype" where
  "type_of (VU8 v) = TU8"
| "type_of (VU16 v) = TU16"
| "type_of (VU32 v) = TU32"
| "type_of (VU64 v) = TU64"
| "type_of (VI32 v) = TI32"
| "type_of (VI64 v) = TI64"
| "type_of (VLongLong v) = TLongLong"
| "type_of (VPointer v) = TPointer"
| "type_of (VFloat v) = TFloat"
| "type_of (VDouble v) = TDouble"

fun pack :: "mem \<Rightarrow> addr \<Rightarrow> pval \<Rightarrow> fault + mem \<times> addr \<times> nat" where
  "pack m buffer (VU8 v) = Inr (pack_unsigned m buffer v)"
| "pack m buffer (VU16 v) = Inr (pack_unsigned m buffer v)"
| "pack m buffer (VU32 v) = Inr (pack_unsigned m buffer v)"
| "pack m buffer (VU64 v) = Inr (pack_unsigned m buffer v)"
| "pack m buffer (VI32 v) = pack_int32 m buffer v"
| "pack m buffer (VI64 v) = pack_int64 m buffer v"
| "pack m buffer (VLongLong v) = pack_longlong m buffer v"
| "pack m buffer (VPointer v) = Inr (pack_pointer m buffer v)"
| "pack m buffer (VFloat v) = Inr (pack_floating m buffer v)"
| "pack m buffer (VDouble v) = Inr (pack_floating m buffer v)"

definition tagged :: "('a \<Rightarrow> pval) \<Rightarrow> fault + 'a \<times> addr \<Rightarrow> fault + pval \<times> addr" where
  "tagged C r = (case r of Inl e \<Rightarrow> Inl e | Inr (v, p) \<Rightarrow> Inr (C v, p))"

text \<open>
  \<open>unpack<T>\<close> for each supported \<open>T\<close>. \<open>f2d\<close> is the conversion from \<open>float\<close> to
  \<open>double\<close>, which \<open>unpack<double>\<close> applies when its code is 4.
\<close>

fun unpack_as :: "(32 word \<Rightarrow> 64 word) \<Rightarrow> ctype \<Rightarrow> mem \<Rightarrow> addr \<Rightarrow> 8 word \<Rightarrow> fault + pval \<times> addr" where
  "unpack_as f2d TU8 m inp c = tagged VU8 (unpack m inp c)"
| "unpack_as f2d TU16 m inp c = tagged VU16 (unpack m inp c)"
| "unpack_as f2d TU32 m inp c = tagged VU32 (unpack m inp c)"
| "unpack_as f2d TU64 m inp c = tagged VU64 (unpack m inp c)"
| "unpack_as f2d TI32 m inp c = tagged VI32 (unpack m inp c)"
| "unpack_as f2d TI64 m inp c = tagged VI64 (unpack m inp c)"
| "unpack_as f2d TLongLong m inp c = tagged VLongLong (unpack m inp c)"
| "unpack_as f2d TPointer m inp c = tagged VPointer (unpack_pointer m inp c)"
| "unpack_as f2d TFloat m inp c = tagged VFloat (unpack_floating (\<lambda>w. w) m inp c)"
| "unpack_as f2d TDouble m inp c = tagged VDouble (unpack_floating f2d m inp c)"

text \<open>\<open>Nibbler::getNext<T>\<close>, with the assertion as a fault.\<close>

definition getNext ::
  "(32 word \<Rightarrow> 64 word) \<Rightarrow> ctype \<Rightarrow> mem \<Rightarrow> Nibbler \<Rightarrow> fault + pval \<times> Nibbler" where
  "getNext f2d T m nb =
     (if \<not> currPackedValue nb < endOfValues nb then Inl AssertionFailed
      else
        (let nibble = (if onFirstNibble nb then first (m (nibblePosition nb))
                       else second (m (nibblePosition nb)))
         in case unpack_as f2d T m (currPackedValue nb) nibble of
              Inl e \<Rightarrow> Inl e
            | Inr (ret, cur) \<Rightarrow>
                Inr (ret,
                     nb\<lparr> currPackedValue := cur,
                         nibblePosition :=
                           (if \<not> onFirstNibble nb then nibblePosition nb + 1
                            else nibblePosition nb),
                         onFirstNibble := \<not> onFirstNibble nb \<rparr>)))"

section \<open>Callers: a run of pack calls, a run of getNext calls\<close>

text \<open>
  Values packed one after the other into one buffer: the final store, the final buffer
  pointer and the codes in order.
\<close>

fun pack_all :: "mem \<Rightarrow> addr \<Rightarrow> pval list \<Rightarrow> fault + mem \<times> addr \<times> nat list" where
  "pack_all m buffer [] = Inr (m, buffer, [])"
| "pack_all m buffer (v # vs) =
     (case pack m buffer v of
        Inl e \<Rightarrow> Inl e
      | Inr (m', buffer', code) \<Rightarrow>
          (case pack_all m' buffer' vs of
             Inl e \<Rightarrow> Inl e
           | Inr (m'', buffer'', codes) \<Rightarrow> Inr (m'', buffer'', code # codes)))"

fun getNext_all ::
  "(32 word \<Rightarrow> 64 word) \<Rightarrow> mem \<Rightarrow> Nibbler \<Rightarrow> ctype list \<Rightarrow> fault + pval list \<times> Nibbler" where
  "getNext_all f2d m nb [] = Inr ([], nb)"
| "getNext_all f2d m nb (T # Ts) =
     (case getNext f2d T m nb of
        Inl e \<Rightarrow> Inl e
      | Inr (v, nb') \<Rightarrow>
          (case getNext_all f2d m nb' Ts of
             Inl e \<Rightarrow> Inl e
           | Inr (vs, nb'') \<Rightarrow> Inr (v # vs, nb'')))"

text \<open>The \<open>k\<close>-th nibble of a nibble stream starting at \<open>p\<close>.\<close>

definition nibble_at :: "mem \<Rightarrow> addr \<Rightarrow> nat \<Rightarrow> byte" where
  "nibble_at m p k =
     (if even k then first (m (p + int (k div 2))) else second (m (p + int (k div 2))))"

text \<open>
  The byte width that the specification attributes to a nibble code: 16 for 0, the code
  for 1 to 8, the code minus 8 above 8.
\<close>

definition code_width :: "byte \<Rightarrow> nat" where
  "code_width c = (if c = 0 then 16 else if 8 < c then unat c - 8 else unat c)"

section \<open>Vocabulary of the claims\<close>

text \<open>\<open>sizeof(T)\<close> on the platform the file targets (x86-64).\<close>

fun sizeof :: "ctype \<Rightarrow> nat" where
  "sizeof TU8 = 1"
| "sizeof TU16 = 2"
| "sizeof TU32 = 4"
| "sizeof TU64 = 8"
| "sizeof TI32 = 4"
| "sizeof TI64 = 8"
| "sizeof TLongLong = 8"
| "sizeof TPointer = 8"
| "sizeof TFloat = 4"
| "sizeof TDouble = 8"

text \<open>The number an unsigned integer value stands for, and the one a signed value does.\<close>

fun unsigned_value :: "pval \<Rightarrow> nat option" where
  "unsigned_value (VU8 x) = Some (unat x)"
| "unsigned_value (VU16 x) = Some (unat x)"
| "unsigned_value (VU32 x) = Some (unat x)"
| "unsigned_value (VU64 x) = Some (unat x)"
| "unsigned_value v = None"

fun signed_value :: "pval \<Rightarrow> int option" where
  "signed_value (VI32 x) = Some (sint x)"
| "signed_value (VI64 x) = Some (sint x)"
| "signed_value (VLongLong x) = Some (sint x)"
| "signed_value v = None"

text \<open>
  Whether a call of \<open>pack\<close> takes the else branch of a signed overload, the only place
  where a value is negated.
\<close>

fun negating :: "pval \<Rightarrow> bool" where
  "negating (VI32 val) = (\<not> (0 \<le>s val \<or> val \<le>s - push_bit 24 1))"
| "negating (VI64 val) = (\<not> (0 \<le>s val \<or> val \<le>s - push_bit 56 1))"
| "negating (VLongLong val) = (\<not> (0 \<le>s val \<or> val \<le>s - push_bit 56 1))"
| "negating v = False"

text \<open>
  The specification's "smallest \<open>b\<close> such that \<open>v\<close> fits unsigned in \<open>b\<close> bytes",
  computed byte by byte.
\<close>

fun min_bytes :: "nat \<Rightarrow> nat" where
  "min_bytes n = (if n < 256 then 1 else Suc (min_bytes (n div 256)))"

declare min_bytes.simps [simp del]

section \<open>Reading back what memcpy wrote\<close>

lemma bit_memcpy_to:
  "bit (memcpy_to m p n :: 'a::len word) i \<longleftrightarrow>
     i < LENGTH('a) \<and> i < 8 * n \<and> bit (m (p + int (i div 8))) (i mod 8)"
proof (induction n arbitrary: p i)
  case 0
  then show ?case by simp
next
  case (Suc n)
  show ?case
  proof (cases "i < 8")
    case True
    then show ?thesis
      by (auto simp: bit_or_iff bit_ucast_iff bit_push_bit_iff dest: bit_imp_le_length)
  next
    case False
    then have d: "i div 8 = Suc ((i - 8) div 8)" and m: "i mod 8 = (i - 8) mod 8"
      by (simp_all add: le_div_geq le_mod_geq)
    have "\<not> bit (ucast (m p) :: 'a word) i"
      using False by (auto simp: bit_ucast_iff dest: bit_imp_le_length)
    then show ?thesis
      using False Suc.IH[of "p + 1" "i - 8"] d m
      by (auto simp: bit_or_iff bit_push_bit_iff add.assoc)
  qed
qed

text \<open>The code chosen by the if-chain of pack.\<close>

lemma unat_lt_64:
  fixes val :: "'a::len word"
  assumes "LENGTH('a) \<le> 64"
  shows "unat val < 2 ^ 64"
proof -
  have "unat val < 2 ^ LENGTH('a)" by (rule unsigned_less)
  moreover have "(2::nat) ^ LENGTH('a) \<le> 2 ^ 64"
    by (rule power_increasing) (use assms in simp_all)
  ultimately show ?thesis by linarith
qed

lemma unat_ucast64:
  fixes val :: "'a::len word"
  assumes "LENGTH('a) \<le> 64"
  shows "unat (ucast val :: 64 word) = unat val"
  using unat_lt_64 [OF assms, of val]
  by (simp add: unsigned_ucast_eq take_bit_nat_eq_self)

lemma pack_unsigned_cases:
  fixes val :: "'a::len word"
  assumes len: "LENGTH('a) \<le> 64"
  obtains k where "pack_unsigned m buffer val =
       (memcpy_from m buffer val (LENGTH('a) div 8), buffer + int k, k)"
    and "1 \<le> k" and "k \<le> 8" and "unat val < 2 ^ (8 * k)"
    and "k = 1 \<or> 2 ^ (8 * (k - 1)) \<le> unat val"
proof -
  have u: "unat (ucast val :: 64 word) = unat val" by (rule unat_ucast64 [OF len])
  have lt64: "unat val < 2 ^ 64" by (rule unat_lt_64 [OF len])
  show thesis
    apply (rule that [of "snd (snd (pack_unsigned m buffer val))"])
    using lt64
        apply (simp_all add: pack_unsigned_def Let_def word_less_nat_alt u)
    done
qed

lemma take_bit_unat_small:
  fixes val :: "'a::len word"
  assumes "unat val < 2 ^ n"
  shows "take_bit n val = val"
  using assms
  by (metis take_bit_nat_eq_self unsigned_take_bit_eq word_unat_eq_iff)

lemma ucast_ucast64:
  fixes val :: "'a::len word"
  assumes "LENGTH('a) \<le> 64"
  shows "(ucast (ucast val :: 64 word) :: 'a word) = val"
  using assms by (intro bit_word_eqI) (auto simp: bit_ucast_iff dest: bit_imp_le_length)

lemma ucast_down_of_int:
  assumes "LENGTH('a::len) \<le> 64"
  shows "(ucast (word_of_int z :: 64 word) :: 'a word) = word_of_int z"
  using assms
  by (simp add: ucast_eq word_of_int_eq_iff uint_word_of_int_eq take_bit_take_bit min_def unsigned_of_int)

lemma ucast_neg64:
  fixes val :: "'a::len word"
  assumes "LENGTH('a) \<le> 64"
  shows "(ucast (- (ucast val :: 64 word)) :: 'a word) = - val"
proof -
  have "(ucast val :: 64 word) = word_of_int (uint val)"
    by (rule ucast_eq)
  then have a: "- (ucast val :: 64 word) = word_of_int (- uint val)"
    by simp
  have "(ucast (word_of_int (- uint val) :: 64 word) :: 'a word) = word_of_int (- uint val)"
    by (rule ucast_down_of_int [OF assms])
  also have "\<dots> = - val" by simp
  finally show ?thesis by (simp only: a)
qed

lemma memcpy_to_bytes:
  fixes v :: "'a::len word"
  assumes "\<forall>i<n. m (p + int i) = ucast (drop_bit (8 * i) v)"
  shows "(memcpy_to m p n :: 'b::len word) = ucast (take_bit (8 * n) v)"
proof (rule bit_word_eqI)
  fix i assume "i < LENGTH('b)"
  have "i < 8 * n \<Longrightarrow> i div 8 < n" by auto
  moreover have "8 * (i div 8) + i mod 8 = i" by simp
  ultimately show "bit (memcpy_to m p n :: 'b word) i = bit (ucast (take_bit (8 * n) v) :: 'b word) i"
    using assms
    by (auto simp: bit_memcpy_to bit_ucast_iff bit_take_bit_iff bit_drop_bit_eq
        dest: bit_imp_le_length)
qed

lemma memcpy_to_small:
  fixes v :: "'a::len word"
  assumes "\<forall>i<n. m (p + int i) = ucast (drop_bit (8 * i) v)" and "unat v < 2 ^ (8 * n)"
  shows "(memcpy_to m p n :: 'b::len word) = ucast v"
  using memcpy_to_bytes [OF assms(1)] take_bit_unat_small [OF assms(2)] by simp

lemma of_nat_code_le8:
  assumes "k \<le> 8"
  shows "(of_nat k :: 8 word) \<le> 8" and "unat (of_nat k :: 8 word) = k"
proof -
  show u: "unat (of_nat k :: 8 word) = k"
    using assms by (simp add: unat_of_nat)
  show "(of_nat k :: 8 word) \<le> 8"
    using assms u by (simp add: word_le_nat_alt)
qed

lemma unpack_direct:
  fixes val :: "'a::len word"
  assumes len: "LENGTH('a) \<le> 64" and k: "k \<le> 8"
    and small: "unat val < 2 ^ (8 * k)"
    and bytes: "\<forall>i<k. m (b + int i) = ucast (drop_bit (8 * i) val)"
  shows "(unpack m b (of_nat k) :: fault + 'a word \<times> addr) = Inr (val, b + int k)"
  using of_nat_code_le8 [OF k] memcpy_to_small [OF bytes small, where 'b = 64]
    ucast_ucast64 [OF len, of val]
  by (simp add: unpack_def)

lemma uint_less_of_unat:
  fixes w :: "'a::len word"
  assumes "unat w < n"
  shows "uint w < int n"
proof -
  have "int (unat w) < int n" using assms by (simp only: of_nat_less_iff)
  then show ?thesis by (simp only: uint_nat)
qed

lemma sint_eq_uint_small:
  fixes w :: "'a::len word"
  assumes "uint w < 2 ^ (LENGTH('a) - 1)"
  shows "sint w = uint w"
proof -
  have "- (2 ^ (LENGTH('a) - 1)) \<le> uint w"
    by (rule order_trans [of _ 0]) simp_all
  then show ?thesis
    using assms by (simp add: sint_uint signed_take_bit_int_eq_self)
qed

lemma negate_small:
  fixes w :: "'a::len word"
  assumes "uint w < 2 ^ (LENGTH('a) - 1)"
  shows "negate w = Some (- w)"
proof -
  have "0 \<le> sint w"
    using sint_eq_uint_small [OF assms] by simp
  moreover have "- (2 ^ (LENGTH('a) - 1)) < (0::int)"
    by simp
  ultimately have "sint w \<noteq> - (2 ^ (LENGTH('a) - 1))"
    by linarith
  then show ?thesis
    by (simp add: negate_def)
qed

lemma neg_magnitude:
  fixes val :: "'a::len word"
  assumes lo: "- (2 ^ j) < sint val" and hi: "sint val < 0" and j: "j < LENGTH('a)"
  shows "uint (- val) = - sint val" and "negate val = Some (- val)"
    and "sint (- val) = - sint val"
proof -
  have p: "(2::int) ^ j \<le> 2 ^ (LENGTH('a) - 1)"
    by (rule power_increasing) (use j in simp_all)
  have q: "(2::int) ^ (LENGTH('a) - 1) < 2 ^ LENGTH('a)"
    by (rule power_strict_increasing) simp_all
  have "sint (- val) = signed_take_bit (LENGTH('a) - 1) (- sint val)"
    by (rule sint_word_minus)
  also have "\<dots> = - sint val"
    by (rule signed_take_bit_int_eq_self) (use lo hi p in linarith)+
  finally have s: "sint (- val) = - sint val" .
  have "uint (- val) = take_bit LENGTH('a) (sint (- val))"
    by (rule uint_sint)
  also have "\<dots> = - sint val"
    unfolding s by (rule take_bit_int_eq_self) (use lo hi p q in linarith)+
  finally show "uint (- val) = - sint val" .
  have "sint val \<noteq> - (2 ^ (LENGTH('a) - 1))"
    using lo p by linarith
  then show "negate val = Some (- val)"
    by (simp add: negate_def)
  show "sint (- val) = - sint val"
    by (rule s)
qed

lemma of_nat_code_neg:
  assumes "1 \<le> k" and "k \<le> 7"
  shows "\<not> (of_nat (8 + k) :: 8 word) \<le> 8"
    and "(of_nat (8 + k) :: 8 word) \<noteq> 0"
    and "unat (0x0f AND ((of_nat (8 + k) :: 8 word) - 8)) = k"
proof -
  from assms have "k = 1 \<or> k = 2 \<or> k = 3 \<or> k = 4 \<or> k = 5 \<or> k = 6 \<or> k = 7"
    by arith
  then show "\<not> (of_nat (8 + k) :: 8 word) \<le> 8"
    and "(of_nat (8 + k) :: 8 word) \<noteq> 0"
    and "unat (0x0f AND ((of_nat (8 + k) :: 8 word) - 8)) = k"
    by auto
qed

lemma unpack_negated:
  fixes nval :: "'a::len word"
  assumes len: "LENGTH('a) \<le> 64" and k1: "1 \<le> k" and k7: "k \<le> 7"
    and small: "unat nval < 2 ^ (8 * k)"
    and bytes: "\<forall>i<k. m (b + int i) = ucast (drop_bit (8 * i) nval)"
  shows "(unpack m b (of_nat (8 + k)) :: fault + 'a word \<times> addr) = Inr (- nval, b + int k)"
proof -
  have packed: "(memcpy_to m b k :: 64 word) = ucast nval"
    by (rule memcpy_to_small [OF bytes small])
  have "(2::nat) ^ (8 * k) \<le> 2 ^ 56"
    by (rule power_increasing) (use k7 in simp_all)
  with small have "unat nval < 2 ^ 63"
    by simp
  then have "unat (ucast nval :: 64 word) < 2 ^ 63"
    by (simp only: unat_ucast64 [OF len])
  then have "uint (ucast nval :: 64 word) < 2 ^ (LENGTH(64) - 1)"
    using uint_less_of_unat [of "ucast nval :: 64 word" "2 ^ 63"] by simp
  then have neg: "negate (ucast nval :: 64 word) = Some (- ucast nval)"
    by (rule negate_small)
  show ?thesis
    using of_nat_code_neg [OF k1 k7] k7 packed neg ucast_neg64 [OF len, of nval]
    by (simp add: unpack_def)
qed

section \<open>What pack leaves in the store\<close>

lemma memcpy_from_inside:
  "i < n \<Longrightarrow> memcpy_from m b val n (b + int i) = ucast (drop_bit (8 * i) val)"
  by (simp add: memcpy_from_def)

lemma memcpy_from_outside:
  "a < b \<or> b + int n \<le> a \<Longrightarrow> memcpy_from m b val n a = m a"
  by (auto simp: memcpy_from_def)

lemma pack_unsigned_result:
  fixes val :: "'a::len word"
  assumes len: "LENGTH('a) \<le> 64" and dvd: "8 dvd LENGTH('a)"
  obtains k where "pack_unsigned m buffer val =
       (memcpy_from m buffer val (LENGTH('a) div 8), buffer + int k, k)"
    and "1 \<le> k" and "k \<le> LENGTH('a) div 8" and "unat val < 2 ^ (8 * k)"
    and "k = 1 \<or> 2 ^ (8 * (k - 1)) \<le> unat val"
proof -
  obtain k where k: "pack_unsigned m buffer val =
       (memcpy_from m buffer val (LENGTH('a) div 8), buffer + int k, k)"
    "1 \<le> k" "k \<le> 8" "unat val < 2 ^ (8 * k)" "k = 1 \<or> 2 ^ (8 * (k - 1)) \<le> unat val"
    by (rule pack_unsigned_cases [OF len])
  from dvd obtain s where s: "LENGTH('a) = 8 * s" by (rule dvdE)
  then have s1: "1 \<le> s" using len_gt_0 [where 'a = 'a] by simp
  have "k \<le> s"
  proof (cases "k = 1")
    case True
    with s1 show ?thesis by simp
  next
    case False
    with k(5) have "(2::nat) ^ (8 * (k - 1)) \<le> unat val" by simp
    also have "unat val < 2 ^ LENGTH('a)" by (rule unsigned_less)
    finally have "8 * (k - 1) < 8 * s" by (simp add: s)
    then show ?thesis by simp
  qed
  then have "k \<le> LENGTH('a) div 8" by (simp add: s)
  with k show thesis by (intro that)
qed

lemma roundtrip_unsigned:
  fixes val :: "'a::len word"
  assumes len: "LENGTH('a) \<le> 64" and dvd: "8 dvd LENGTH('a)"
    and p: "pack_unsigned m0 b val = (ma, b', c)"
    and agree: "\<forall>a. b \<le> a \<and> a < b' \<longrightarrow> m a = ma a"
  shows "(unpack m b (of_nat c) :: fault + 'a word \<times> addr) = Inr (val, b')"
proof -
  obtain k where k: "pack_unsigned m0 b val =
       (memcpy_from m0 b val (LENGTH('a) div 8), b + int k, k)"
    "1 \<le> k" "k \<le> LENGTH('a) div 8" "unat val < 2 ^ (8 * k)"
    by (rule pack_unsigned_result [OF len dvd])
  with p have eq: "ma = memcpy_from m0 b val (LENGTH('a) div 8)" "b' = b + int k" "c = k"
    by simp_all
  have k8: "k \<le> 8" using k(3) len by simp
  have "\<forall>i<k. m (b + int i) = ucast (drop_bit (8 * i) val)"
    using agree k(3) by (simp add: eq memcpy_from_inside)
  then show ?thesis
    unfolding eq by (rule unpack_direct [OF len k8 k(4)])
qed

lemma roundtrip_negated:
  fixes val :: "'a::len word"
  assumes len: "LENGTH('a) \<le> 64" and dvd: "8 dvd LENGTH('a)"
    and lo: "- (2 ^ (LENGTH('a) - 8)) < sint val" and hi: "sint val < 0"
    and p: "pack_unsigned m0 b (- val) = (ma, b', c)"
    and agree: "\<forall>a. b \<le> a \<and> a < b' \<longrightarrow> m a = ma a"
  shows "(unpack m b (of_nat (8 + c)) :: fault + 'a word \<times> addr) = Inr (val, b')"
    and "1 \<le> c" and "c < LENGTH('a) div 8" and "b' = b + int c"
proof -
  obtain k where k: "pack_unsigned m0 b (- val) =
       (memcpy_from m0 b (- val) (LENGTH('a) div 8), b + int k, k)"
    "1 \<le> k" "k \<le> LENGTH('a) div 8" "unat (- val) < 2 ^ (8 * k)"
    "k = 1 \<or> 2 ^ (8 * (k - 1)) \<le> unat (- val)"
    by (rule pack_unsigned_result [OF len dvd])
  with p have eq: "ma = memcpy_from m0 b (- val) (LENGTH('a) div 8)" "b' = b + int k" "c = k"
    by simp_all
  from dvd obtain s where s: "LENGTH('a) = 8 * s" by (rule dvdE)
  then have s1: "1 \<le> s" using len_gt_0 [where 'a = 'a] by simp
  have j: "LENGTH('a) - 8 < LENGTH('a)" using s s1 by simp
  have "uint (- val) = - sint val"
    by (rule neg_magnitude(1) [OF lo hi j])
  with lo have "uint (- val) < 2 ^ (LENGTH('a) - 8)" by simp
  then have "int (unat (- val)) < int (2 ^ (LENGTH('a) - 8))" by simp
  then have mag: "unat (- val) < 2 ^ (LENGTH('a) - 8)" by (simp only: of_nat_less_iff)
  have ks: "k < s"
  proof (cases "k = 1")
    case True
    have "0 < unat (- val)" using hi \<open>uint (- val) = - sint val\<close>
      by (simp add: unat_eq_nat_uint)
    then have "0 < LENGTH('a) - 8" using mag by (cases "LENGTH('a) - 8") simp_all
    then show ?thesis using True s by simp
  next
    case False
    with k(5) have "(2::nat) ^ (8 * (k - 1)) \<le> unat (- val)" by simp
    also note mag
    finally have "8 * (k - 1) < 8 * s - 8" by (simp add: s)
    then show ?thesis by simp
  qed
  then have k7: "k \<le> 7" using len s by simp
  have "\<forall>i<k. m (b + int i) = ucast (drop_bit (8 * i) (- val))"
    using agree k(3) by (simp add: eq memcpy_from_inside)
  then have "(unpack m b (of_nat (8 + k)) :: fault + 'a word \<times> addr) = Inr (- (- val), b + int k)"
    by (rule unpack_negated [OF len k(2) k7 k(4)])
  then show "(unpack m b (of_nat (8 + c)) :: fault + 'a word \<times> addr) = Inr (val, b')"
    by (simp add: eq)
  show "1 \<le> c" using k(2) eq by simp
  show "c < LENGTH('a) div 8" using ks eq s by simp
  show "b' = b + int c" using eq by simp
qed

lemma int32_negated_range:
  fixes val :: "32 word"
  assumes "\<not> (0 \<le>s val \<or> val \<le>s - push_bit 24 1)"
  shows "- (2 ^ (LENGTH(32) - 8)) < sint val" and "sint val < 0"
  using assms by (simp_all add: word_sle_eq)

lemma int64_negated_range:
  fixes val :: "64 word"
  assumes "\<not> (0 \<le>s val \<or> val \<le>s - push_bit 56 1)"
  shows "- (2 ^ (LENGTH(64) - 8)) < sint val" and "sint val < 0"
  using assms by (simp_all add: word_sle_eq)

section \<open>Round trip, type by type\<close>

lemma roundtrip_int32:
  assumes p: "pack_int32 m0 b val = Inr (ma, b', c)"
    and agree: "\<forall>a. b \<le> a \<and> a < b' \<longrightarrow> m a = ma a"
  shows "(unpack m b (of_nat c) :: fault + 32 word \<times> addr) = Inr (val, b')"
proof (cases "0 \<le>s val \<or> val \<le>s - push_bit 24 1")
  case True
  with p have pu: "pack_unsigned m0 b val = (ma, b', c)"
    by (simp add: pack_int32_def)
  show ?thesis
    by (rule roundtrip_unsigned [OF _ _ pu agree]) simp_all
next
  case False
  note r = int32_negated_range [OF False]
  have n: "negate val = Some (- val)"
    by (rule neg_magnitude(2) [OF r]) simp
  obtain c' where c': "pack_unsigned m0 b (- val) = (ma, b', c')" and c: "c = 8 + c'"
    using p False n by (auto simp: pack_int32_def split: prod.splits)
  show ?thesis
    unfolding c by (rule roundtrip_negated(1) [OF _ _ r c' agree]) simp_all
qed

lemma roundtrip_int64:
  assumes p: "pack_int64 m0 b val = Inr (ma, b', c)"
    and agree: "\<forall>a. b \<le> a \<and> a < b' \<longrightarrow> m a = ma a"
  shows "(unpack m b (of_nat c) :: fault + 64 word \<times> addr) = Inr (val, b')"
proof (cases "0 \<le>s val \<or> val \<le>s - push_bit 56 1")
  case True
  with p have pu: "pack_unsigned m0 b val = (ma, b', c)"
    by (simp add: pack_int64_def)
  show ?thesis
    by (rule roundtrip_unsigned [OF _ _ pu agree]) simp_all
next
  case False
  note r = int64_negated_range [OF False]
  have n: "negate val = Some (- val)"
    by (rule neg_magnitude(2) [OF r]) simp
  obtain c' where c': "pack_unsigned m0 b (- val) = (ma, b', c')" and c: "c = 8 + c'"
    using p False n by (auto simp: pack_int64_def split: prod.splits)
  show ?thesis
    unfolding c by (rule roundtrip_negated(1) [OF _ _ r c' agree]) simp_all
qed

lemma pack_longlong_eq: "pack_longlong = pack_int64"
  by (intro ext) (simp add: pack_longlong_def pack_int64_def)

lemma roundtrip_float:
  assumes p: "pack_floating m0 b (val :: 32 word) = (ma, b', c)"
    and agree: "\<forall>a. b \<le> a \<and> a < b' \<longrightarrow> m a = ma a"
  shows "unpack_floating (\<lambda>w. w) m b (of_nat c) = Inr (val, b')"
proof -
  from p have eq: "ma = memcpy_from m0 b val 4" "b' = b + 4" "c = 4"
    by (simp_all add: pack_floating_def)
  have "\<forall>i<4. m (b + int i) = ucast (drop_bit (8 * i) val)"
    using agree by (simp add: eq memcpy_from_inside)
  then have "(memcpy_to m b 4 :: 32 word) = ucast (take_bit (8 * 4) val)"
    by (rule memcpy_to_bytes)
  then show ?thesis
    by (simp add: unpack_floating_def eq take_bit_word_eq_self)
qed

lemma roundtrip_double:
  assumes p: "pack_floating m0 b (val :: 64 word) = (ma, b', c)"
    and agree: "\<forall>a. b \<le> a \<and> a < b' \<longrightarrow> m a = ma a"
  shows "unpack_floating f2d m b (of_nat c) = Inr (val, b')"
proof -
  from p have eq: "ma = memcpy_from m0 b val 8" "b' = b + 8" "c = 8"
    by (simp_all add: pack_floating_def)
  have "\<forall>i<8. m (b + int i) = ucast (drop_bit (8 * i) val)"
    using agree by (simp add: eq memcpy_from_inside)
  then have "(memcpy_to m b 8 :: 64 word) = ucast (take_bit (8 * 8) val)"
    by (rule memcpy_to_bytes)
  then show ?thesis
    by (simp add: unpack_floating_def eq take_bit_word_eq_self)
qed

lemma pack_unpack_as:
  assumes p: "pack m0 b v = Inr (ma, b', c)"
    and agree: "\<forall>a. b \<le> a \<and> a < b' \<longrightarrow> m a = ma a"
  shows "unpack_as f2d (type_of v) m b (of_nat c) = Inr (v, b')"
proof (cases v)
  case (VU8 x)
  with p have pu: "pack_unsigned m0 b x = (ma, b', c)" by simp
  have "(unpack m b (of_nat c) :: fault + 8 word \<times> addr) = Inr (x, b')"
    by (rule roundtrip_unsigned [OF _ _ pu agree]) simp_all
  with VU8 show ?thesis by (simp add: tagged_def)
next
  case (VU16 x)
  with p have pu: "pack_unsigned m0 b x = (ma, b', c)" by simp
  have "(unpack m b (of_nat c) :: fault + 16 word \<times> addr) = Inr (x, b')"
    by (rule roundtrip_unsigned [OF _ _ pu agree]) simp_all
  with VU16 show ?thesis by (simp add: tagged_def)
next
  case (VU32 x)
  with p have pu: "pack_unsigned m0 b x = (ma, b', c)" by simp
  have "(unpack m b (of_nat c) :: fault + 32 word \<times> addr) = Inr (x, b')"
    by (rule roundtrip_unsigned [OF _ _ pu agree]) simp_all
  with VU32 show ?thesis by (simp add: tagged_def)
next
  case (VU64 x)
  with p have pu: "pack_unsigned m0 b x = (ma, b', c)" by simp
  have "(unpack m b (of_nat c) :: fault + 64 word \<times> addr) = Inr (x, b')"
    by (rule roundtrip_unsigned [OF _ _ pu agree]) simp_all
  with VU64 show ?thesis by (simp add: tagged_def)
next
  case (VI32 x)
  with p have "pack_int32 m0 b x = Inr (ma, b', c)" by simp
  then have "(unpack m b (of_nat c) :: fault + 32 word \<times> addr) = Inr (x, b')"
    using agree by (rule roundtrip_int32)
  with VI32 show ?thesis by (simp add: tagged_def)
next
  case (VI64 x)
  with p have "pack_int64 m0 b x = Inr (ma, b', c)" by simp
  then have "(unpack m b (of_nat c) :: fault + 64 word \<times> addr) = Inr (x, b')"
    using agree by (rule roundtrip_int64)
  with VI64 show ?thesis by (simp add: tagged_def)
next
  case (VLongLong x)
  with p have "pack_int64 m0 b x = Inr (ma, b', c)" by (simp add: pack_longlong_eq)
  then have "(unpack m b (of_nat c) :: fault + 64 word \<times> addr) = Inr (x, b')"
    using agree by (rule roundtrip_int64)
  with VLongLong show ?thesis by (simp add: tagged_def)
next
  case (VPointer x)
  with p have pu: "pack_unsigned m0 b x = (ma, b', c)" by (simp add: pack_pointer_def)
  have "(unpack m b (of_nat c) :: fault + 64 word \<times> addr) = Inr (x, b')"
    by (rule roundtrip_unsigned [OF _ _ pu agree]) simp_all
  with VPointer show ?thesis by (simp add: tagged_def unpack_pointer_def)
next
  case (VFloat x)
  with p have "pack_floating m0 b x = (ma, b', c)" by simp
  then have "unpack_floating (\<lambda>w. w) m b (of_nat c) = Inr (x, b')"
    using agree by (rule roundtrip_float)
  with VFloat show ?thesis by (simp add: tagged_def)
next
  case (VDouble x)
  with p have "pack_floating m0 b x = (ma, b', c)" by simp
  then have "unpack_floating f2d m b (of_nat c) = Inr (x, b')"
    using agree by (rule roundtrip_double)
  with VDouble show ?thesis by (simp add: tagged_def)
qed

text \<open>pack returns for every value (the negation never overflows).\<close>

lemma pack_int32_total: "\<exists>r. pack_int32 m b val = Inr r"
proof (cases "0 \<le>s val \<or> val \<le>s - push_bit 24 1")
  case True
  then show ?thesis by (simp add: pack_int32_def del: split_paired_Ex)
next
  case False
  have "negate val = Some (- val)"
    by (rule neg_magnitude(2) [OF int32_negated_range [OF False]]) simp
  with False show ?thesis
    by (simp add: pack_int32_def split: prod.splits del: split_paired_Ex)
qed

lemma pack_int64_total: "\<exists>r. pack_int64 m b val = Inr r"
proof (cases "0 \<le>s val \<or> val \<le>s - push_bit 56 1")
  case True
  then show ?thesis by (simp add: pack_int64_def del: split_paired_Ex)
next
  case False
  have "negate val = Some (- val)"
    by (rule neg_magnitude(2) [OF int64_negated_range [OF False]]) simp
  with False show ?thesis
    by (simp add: pack_int64_def split: prod.splits del: split_paired_Ex)
qed

lemma pack_total: "\<exists>ma b' c. pack m b v = Inr (ma, b', c)"
proof -
  have "\<exists>r. pack m b v = Inr r"
    using pack_int32_total pack_int64_total
    by (cases v) (simp_all add: pack_longlong_eq del: split_paired_Ex)
  then show ?thesis by auto
qed

section \<open>Round trip of every supported type\<close>

text \<open>
  C1 (round trip). For every supported type (unsigned 8, 16, 32 and 64 bit integers,
  int32_t, int64_t, long long, pointers, float, double) and every value \<open>v\<close> of it, in
  every store and at every buffer position: \<open>pack\<close> returns, and \<open>unpack<T>\<close> at the same
  position of the resulting store, given the code that \<open>pack\<close> returned, yields exactly
  \<open>v\<close> (sign included) and bumps its pointer to where \<open>pack\<close> left the buffer pointer.
  Zero and the extreme values of each type are values like the others. A float or double
  is its bit pattern here, so "exactly" is bit for bit.
\<close>

theorem C1_pack_unpack_roundtrip:
  "\<exists>m' buffer' code.
     pack m buffer v = Inr (m', buffer', code) \<and>
     unpack_as f2d (type_of v) m' buffer (of_nat code) = Inr (v, buffer')"
proof -
  obtain m' buffer' code where p: "pack m buffer v = Inr (m', buffer', code)"
    using pack_total by blast
  have "unpack_as f2d (type_of v) m' buffer (of_nat code) = Inr (v, buffer')"
    by (rule pack_unpack_as [OF p]) simp
  with p show ?thesis by blast
qed

theorem C1_pack_unpack_roundtrip_witness:
  "\<exists>m'. pack (\<lambda>_. 0) 0 (VI32 (- 5)) = Inr (m', 1, 9) \<and>
     unpack_as (\<lambda>_. 0) TI32 m' 0 9 = Inr (VI32 (- 5), 1)"
  using C1_pack_unpack_roundtrip [of "\<lambda>_. 0" 0 "VI32 (- 5)" "\<lambda>_. 0"]
  by (simp add: pack_int32_def negate_def pack_unsigned_def word_sle_eq)

section \<open>The codes pack returns\<close>

lemma pack_unsigned_code:
  fixes val :: "'a::len word"
  assumes len: "LENGTH('a) \<le> 64" and dvd: "8 dvd LENGTH('a)"
    and p: "pack_unsigned m b val = (m', b', c)"
  shows "1 \<le> c" and "c \<le> LENGTH('a) div 8" and "b' = b + int c"
    and "m' = memcpy_from m b val (LENGTH('a) div 8)"
    and "unat val < 2 ^ (8 * c)" and "c = 1 \<or> 2 ^ (8 * (c - 1)) \<le> unat val"
proof -
  obtain k where k: "pack_unsigned m b val =
       (memcpy_from m b val (LENGTH('a) div 8), b + int k, k)"
    "1 \<le> k" "k \<le> LENGTH('a) div 8" "unat val < 2 ^ (8 * k)"
    "k = 1 \<or> 2 ^ (8 * (k - 1)) \<le> unat val"
    by (rule pack_unsigned_result [OF len dvd])
  with p have eq: "m' = memcpy_from m b val (LENGTH('a) div 8)" "b' = b + int k" "c = k"
    by simp_all
  show "1 \<le> c" "c \<le> LENGTH('a) div 8" "b' = b + int c"
    "m' = memcpy_from m b val (LENGTH('a) div 8)"
    "unat val < 2 ^ (8 * c)" "c = 1 \<or> 2 ^ (8 * (c - 1)) \<le> unat val"
    using k eq by simp_all
qed

lemma pack_int32_code:
  assumes p: "pack_int32 m b x = Inr (m', b', c)"
  shows "if \<not> (0 \<le>s x \<or> x \<le>s - push_bit 24 1)
         then 9 \<le> c \<and> c \<le> 11 \<and> b' = b + int (c - 8)
         else 1 \<le> c \<and> c \<le> 4 \<and> b' = b + int c"
proof (cases "0 \<le>s x \<or> x \<le>s - push_bit 24 1")
  case True
  with p have pu: "pack_unsigned m b x = (m', b', c)"
    by (simp add: pack_int32_def)
  show ?thesis
    using True pack_unsigned_code(1-3) [OF _ _ pu] by simp
next
  case False
  note r = int32_negated_range [OF False]
  have n: "negate x = Some (- x)"
    by (rule neg_magnitude(2) [OF r]) simp
  obtain c' where c': "pack_unsigned m b (- x) = (m', b', c')" and c: "c = 8 + c'"
    using p False n by (auto simp: pack_int32_def split: prod.splits)
  have "\<forall>a. b \<le> a \<and> a < b' \<longrightarrow> m' a = m' a" by simp
  from roundtrip_negated(2-4) [OF _ _ r c' this]
  show ?thesis using False c by simp
qed

lemma pack_int64_code:
  assumes p: "pack_int64 m b x = Inr (m', b', c)"
  shows "if \<not> (0 \<le>s x \<or> x \<le>s - push_bit 56 1)
         then 9 \<le> c \<and> c \<le> 15 \<and> b' = b + int (c - 8)
         else 1 \<le> c \<and> c \<le> 8 \<and> b' = b + int c"
proof (cases "0 \<le>s x \<or> x \<le>s - push_bit 56 1")
  case True
  with p have pu: "pack_unsigned m b x = (m', b', c)"
    by (simp add: pack_int64_def)
  show ?thesis
    using True pack_unsigned_code(1-3) [OF _ _ pu] by simp
next
  case False
  note r = int64_negated_range [OF False]
  have n: "negate x = Some (- x)"
    by (rule neg_magnitude(2) [OF r]) simp
  obtain c' where c': "pack_unsigned m b (- x) = (m', b', c')" and c: "c = 8 + c'"
    using p False n by (auto simp: pack_int64_def split: prod.splits)
  have "\<forall>a. b \<le> a \<and> a < b' \<longrightarrow> m' a = m' a" by simp
  from roundtrip_negated(2-4) [OF _ _ r c' this]
  show ?thesis using False c by simp
qed

lemma pack_code:
  assumes p: "pack m b v = Inr (m', b', c)"
  shows "if negating v
         then 9 \<le> c \<and> c \<le> 8 + (sizeof (type_of v) - 1) \<and> b' = b + int (c - 8)
         else 1 \<le> c \<and> c \<le> sizeof (type_of v) \<and> b' = b + int c"
proof (cases v)
  case (VU8 x)
  with p have pu: "pack_unsigned m b x = (m', b', c)" by simp
  show ?thesis using VU8 pack_unsigned_code(1-3) [OF _ _ pu] by simp
next
  case (VU16 x)
  with p have pu: "pack_unsigned m b x = (m', b', c)" by simp
  show ?thesis using VU16 pack_unsigned_code(1-3) [OF _ _ pu] by simp
next
  case (VU32 x)
  with p have pu: "pack_unsigned m b x = (m', b', c)" by simp
  show ?thesis using VU32 pack_unsigned_code(1-3) [OF _ _ pu] by simp
next
  case (VU64 x)
  with p have pu: "pack_unsigned m b x = (m', b', c)" by simp
  show ?thesis using VU64 pack_unsigned_code(1-3) [OF _ _ pu] by simp
next
  case (VI32 x)
  with p have "pack_int32 m b x = Inr (m', b', c)" by simp
  from pack_int32_code [OF this] show ?thesis using VI32 by (simp split: if_splits)
next
  case (VI64 x)
  with p have "pack_int64 m b x = Inr (m', b', c)" by simp
  from pack_int64_code [OF this] show ?thesis using VI64 by (simp split: if_splits)
next
  case (VLongLong x)
  with p have "pack_int64 m b x = Inr (m', b', c)" by (simp add: pack_longlong_eq)
  from pack_int64_code [OF this] show ?thesis using VLongLong by (simp split: if_splits)
next
  case (VPointer x)
  with p have pu: "pack_unsigned m b x = (m', b', c)" by (simp add: pack_pointer_def)
  show ?thesis using VPointer pack_unsigned_code(1-3) [OF _ _ pu] by simp
next
  case (VFloat x)
  with p show ?thesis by (auto simp: pack_floating_def)
next
  case (VDouble x)
  with p show ?thesis by (auto simp: pack_floating_def)
qed

lemma negating_range:
  "negating v \<longleftrightarrow>
     (\<exists>i. signed_value v = Some i \<and> - (2 ^ (8 * (sizeof (type_of v) - 1))) < i \<and> i < 0)"
  by (cases v) (auto simp: word_sle_eq)

lemma pack_int32_branches:
  "pack_int32 m b x =
     (if negating (VI32 x)
      then (case pack_unsigned m b (- x) of (m', b', c) \<Rightarrow> Inr (m', b', 8 + c))
      else Inr (pack_unsigned m b x))"
proof (cases "negating (VI32 x)")
  case True
  then have "negate x = Some (- x)"
    by (intro neg_magnitude(2) [where j = 24]) (simp_all add: word_sle_eq)
  with True show ?thesis by (simp add: pack_int32_def)
next
  case False
  then show ?thesis by (simp add: pack_int32_def)
qed

lemma pack_int64_branches:
  "pack_int64 m b x =
     (if negating (VI64 x)
      then (case pack_unsigned m b (- x) of (m', b', c) \<Rightarrow> Inr (m', b', 8 + c))
      else Inr (pack_unsigned m b x))"
proof (cases "negating (VI64 x)")
  case True
  then have "negate x = Some (- x)"
    by (intro neg_magnitude(2) [where j = 56]) (simp_all add: word_sle_eq)
  with True show ?thesis by (simp add: pack_int64_def)
next
  case False
  then show ?thesis by (simp add: pack_int64_def)
qed

lemma negative_bit_pattern:
  fixes x :: "'a::len word"
  assumes "sint x < 0"
  shows "2 ^ (LENGTH('a) - 1) \<le> unat x"
proof (rule ccontr)
  assume "\<not> 2 ^ (LENGTH('a) - 1) \<le> unat x"
  then have "unat x < 2 ^ (LENGTH('a) - 1)" by simp
  then have "uint x < int (2 ^ (LENGTH('a) - 1))" by (rule uint_less_of_unat)
  then have "uint x < 2 ^ (LENGTH('a) - 1)" by simp
  then have "sint x = uint x" by (rule sint_eq_uint_small)
  with assms show False by simp
qed

lemma full_width_code:
  fixes x :: "'a::len word"
  assumes len: "LENGTH('a) \<le> 64" and dvd: "8 dvd LENGTH('a)"
    and neg: "sint x < 0" and p: "pack_unsigned m b x = (m', b', c)"
  shows "c = LENGTH('a) div 8"
proof -
  from dvd obtain s where s: "LENGTH('a) = 8 * s" by (rule dvdE)
  then have s1: "1 \<le> s" using len_gt_0 [where 'a = 'a] by simp
  note c = pack_unsigned_code [OF len dvd p]
  have "(2::nat) ^ (LENGTH('a) - 1) \<le> unat x" by (rule negative_bit_pattern [OF neg])
  also note c(5)
  finally have "8 * s - 1 < 8 * c" by (simp add: s)
  then have "s \<le> c" by simp
  with c(2) show ?thesis by (simp add: s)
qed

text \<open>
  C9 (codes fit a nibble). Every call of \<open>pack\<close>, for every supported type and value,
  returns, and its code is between 1 and 15, never 0: at most 8 on the unsigned and pointer
  paths, 4 for a float and 8 for a double, between 9 and 8 + (sizeof(T) - 1) when the signed
  overload negates (the magnitude then fits in sizeof(T) - 1 bytes), and at most 8 when it
  does not.
\<close>

theorem C9_codes_fit_a_nibble:
  "\<exists>m' buffer' code.
     pack m buffer v = Inr (m', buffer', code) \<and>
     1 \<le> code \<and> code \<le> 15 \<and>
     (type_of v \<in> {TU8, TU16, TU32, TU64, TPointer} \<longrightarrow> code \<le> 8) \<and>
     (type_of v = TFloat \<longrightarrow> code = 4) \<and>
     (type_of v = TDouble \<longrightarrow> code = 8) \<and>
     (negating v \<longrightarrow> 9 \<le> code \<and> code - 8 \<le> sizeof (type_of v) - 1) \<and>
     (\<not> negating v \<longrightarrow> code \<le> 8)"
proof -
  obtain m' buffer' code where p: "pack m buffer v = Inr (m', buffer', code)"
    using pack_total by blast
  note c = pack_code [OF p]
  have s: "sizeof (type_of v) \<le> 8" by (cases v) simp_all
  have "1 \<le> code \<and> code \<le> 15"
    using c s by (auto split: if_splits)
  moreover have "type_of v \<in> {TU8, TU16, TU32, TU64, TPointer} \<longrightarrow> code \<le> 8"
    using c s by (cases v) (auto split: if_splits)
  moreover have "type_of v = TFloat \<longrightarrow> code = 4" "type_of v = TDouble \<longrightarrow> code = 8"
    using p by (cases v; simp add: pack_floating_def)+
  moreover have "negating v \<longrightarrow> 9 \<le> code \<and> code - 8 \<le> sizeof (type_of v) - 1"
    using c by (auto split: if_splits)
  moreover have "\<not> negating v \<longrightarrow> code \<le> 8"
    using c s by (auto split: if_splits)
  ultimately show ?thesis using p by blast
qed

theorem C9_codes_fit_a_nibble_witness:
  "(\<exists>m'. pack (\<lambda>_. 0) 0 (VI64 (- 300)) = Inr (m', 2, 10)) \<and> negating (VI64 (- 300)) \<and>
   sizeof (type_of (VI64 (- 300))) = 8 \<and>
   (\<exists>m'. pack (\<lambda>_. 0) 0 (VU16 7) = Inr (m', 1, 1)) \<and>
   (\<exists>m'. pack (\<lambda>_. 0) 0 (VFloat 0x4048F5C3) = Inr (m', 4, 4)) \<and>
   (\<exists>m'. pack (\<lambda>_. 0) 0 (VDouble 0x40091EB851EB851F) = Inr (m', 8, 8))"
  using C9_codes_fit_a_nibble [of "\<lambda>_. 0" 0 "VI64 (- 300)"]
    C9_codes_fit_a_nibble [of "\<lambda>_. 0" 0 "VU16 7"]
    C9_codes_fit_a_nibble [of "\<lambda>_. 0" 0 "VFloat 0x4048F5C3"]
    C9_codes_fit_a_nibble [of "\<lambda>_. 0" 0 "VDouble 0x40091EB851EB851F"]
  by (simp add: pack_int64_def negate_def pack_unsigned_def pack_floating_def word_sle_eq)

text \<open>
  C10 (negation stays in range). The signed overloads reach their negating branch only for
  \<open>- 2 ^ (8 * (sizeof(T) - 1)) < val < 0\<close>; there the negation is defined and is the
  mathematical negation, so it never overflows. \<open>pack\<close> is the negated path exactly when
  \<open>negating\<close> holds and the unsigned path on the bit pattern otherwise; the most negative
  value of each signed type takes the unsigned path.
\<close>

theorem C10_negation_in_range:
  fixes x :: "32 word" and y :: "64 word"
  shows
    "(negating (VI32 x) \<longrightarrow>
        - (2 ^ 24) < sint x \<and> sint x < 0 \<and> negate x = Some (- x) \<and> sint (- x) = - sint x) \<and>
     (negating (VI64 y) \<longrightarrow>
        - (2 ^ 56) < sint y \<and> sint y < 0 \<and> negate y = Some (- y) \<and> sint (- y) = - sint y) \<and>
     (negating (VLongLong y) \<longrightarrow>
        - (2 ^ 56) < sint y \<and> sint y < 0 \<and> negate y = Some (- y) \<and> sint (- y) = - sint y) \<and>
     pack m buffer (VI32 x) =
       (if negating (VI32 x)
        then (case pack_unsigned m buffer (- x) of (m', b', c) \<Rightarrow> Inr (m', b', 8 + c))
        else Inr (pack_unsigned m buffer x)) \<and>
     pack m buffer (VI64 y) =
       (if negating (VI64 y)
        then (case pack_unsigned m buffer (- y) of (m', b', c) \<Rightarrow> Inr (m', b', 8 + c))
        else Inr (pack_unsigned m buffer y)) \<and>
     pack m buffer (VLongLong y) =
       (if negating (VLongLong y)
        then (case pack_unsigned m buffer (- y) of (m', b', c) \<Rightarrow> Inr (m', b', 8 + c))
        else Inr (pack_unsigned m buffer y)) \<and>
     \<not> negating (VI32 (- (2 ^ 31))) \<and>
     \<not> negating (VI64 (- (2 ^ 63))) \<and>
     \<not> negating (VLongLong (- (2 ^ 63)))"
proof -
  have a: "negating (VI32 x) \<longrightarrow>
        - (2 ^ 24) < sint x \<and> sint x < 0 \<and> negate x = Some (- x) \<and> sint (- x) = - sint x"
  proof
    assume "negating (VI32 x)"
    then have r: "- (2 ^ 24) < sint x" "sint x < 0" by (simp_all add: word_sle_eq)
    from neg_magnitude(2,3) [OF r] r
    show "- (2 ^ 24) < sint x \<and> sint x < 0 \<and> negate x = Some (- x) \<and> sint (- x) = - sint x"
      by simp
  qed
  have b: "- (2 ^ 56) < sint y \<and> sint y < 0 \<and> negate y = Some (- y) \<and> sint (- y) = - sint y"
    if r: "- (2 ^ 56) < sint y" "sint y < 0"
    using neg_magnitude(2,3) [OF r] r by simp
  have b1: "negating (VI64 y) \<longrightarrow>
        - (2 ^ 56) < sint y \<and> sint y < 0 \<and> negate y = Some (- y) \<and> sint (- y) = - sint y"
    using b by (simp add: word_sle_eq)
  have b2: "negating (VLongLong y) \<longrightarrow>
        - (2 ^ 56) < sint y \<and> sint y < 0 \<and> negate y = Some (- y) \<and> sint (- y) = - sint y"
    using b by (simp add: word_sle_eq)
  have c: "pack m buffer (VI32 x) =
       (if negating (VI32 x)
        then (case pack_unsigned m buffer (- x) of (m', b', c) \<Rightarrow> Inr (m', b', 8 + c))
        else Inr (pack_unsigned m buffer x))"
    using pack_int32_branches [of m buffer x] by simp
  have d: "pack m buffer (VI64 y) =
       (if negating (VI64 y)
        then (case pack_unsigned m buffer (- y) of (m', b', c) \<Rightarrow> Inr (m', b', 8 + c))
        else Inr (pack_unsigned m buffer y))"
    using pack_int64_branches [of m buffer y] by simp
  have e: "pack m buffer (VLongLong y) =
       (if negating (VLongLong y)
        then (case pack_unsigned m buffer (- y) of (m', b', c) \<Rightarrow> Inr (m', b', 8 + c))
        else Inr (pack_unsigned m buffer y))"
    using pack_int64_branches [of m buffer y] by (simp add: pack_longlong_eq)
  have f: "\<not> negating (VI32 (- (2 ^ 31)))" "\<not> negating (VI64 (- (2 ^ 63)))"
    "\<not> negating (VLongLong (- (2 ^ 63)))"
    by (simp_all add: word_sle_eq)
  from a b1 b2 c d e f show ?thesis by (intro conjI)
qed

theorem C10_negation_in_range_witness:
  "negating (VI32 (- 5)) \<and> negate (- 5 :: 32 word) = Some 5 \<and>
   negating (VI64 (- 300)) \<and> negate (- 300 :: 64 word) = Some 300 \<and>
   negating (VLongLong (- 1)) \<and>
   pack (\<lambda>_. 0) 0 (VI32 (- (2 ^ 31))) = Inr (pack_unsigned (\<lambda>_. 0) 0 (- (2 ^ 31) :: 32 word))"
  using C10_negation_in_range [of "- 5" "- 300" "\<lambda>_. 0" 0]
    C10_negation_in_range [of "- (2 ^ 31)" "- 1" "\<lambda>_. 0" 0]
  by (simp add: word_sle_eq)

text \<open>
  C2 as stated fails: the int32_t value \<open>- 2 ^ 24\<close> is negative and its code is 4, not
  above 8. The guard of the signed overloads sends every value at or below
  \<open>- 2 ^ (8 * (sizeof(T) - 1))\<close> to the unsigned path.
\<close>

theorem C2_counterexample:
  "signed_value (VI32 (- 16777216)) = Some (- 16777216) \<and>
   pack (\<lambda>_. 0) 0 (VI32 (- 16777216)) =
     Inr (memcpy_from (\<lambda>_. 0) 0 (- 16777216 :: 32 word) 4, 4, 4)"
  by (simp add: pack_int32_def pack_unsigned_def word_sle_eq)

lemma signed_full_width:
  assumes sv: "signed_value v = Some i" and neg: "i < 0" and nn: "\<not> negating v"
    and p: "pack m b v = Inr (m', b', c)"
  shows "c = sizeof (type_of v)"
proof (cases v)
  case (VI32 x)
  with sv neg have n: "sint x < 0" by simp
  from nn VI32 have cond: "0 \<le>s x \<or> x \<le>s - push_bit 24 1" by simp
  from p VI32 have "pack_int32 m b x = Inr (m', b', c)" by (simp)
  with cond have pu: "pack_unsigned m b x = (m', b', c)"
    by (simp add: pack_int32_def)
  show ?thesis using full_width_code [OF _ _ n pu] VI32 by simp
next
  case (VI64 x)
  with sv neg have n: "sint x < 0" by simp
  from nn VI64 have cond: "0 \<le>s x \<or> x \<le>s - push_bit 56 1" by simp
  from p VI64 have "pack_int64 m b x = Inr (m', b', c)" by (simp)
  with cond have pu: "pack_unsigned m b x = (m', b', c)"
    by (simp add: pack_int64_def)
  show ?thesis using full_width_code [OF _ _ n pu] VI64 by simp
next
  case (VLongLong x)
  with sv neg have n: "sint x < 0" by simp
  from nn VLongLong have cond: "0 \<le>s x \<or> x \<le>s - push_bit 56 1" by simp
  from p VLongLong have "pack_int64 m b x = Inr (m', b', c)" by (simp add: pack_longlong_eq)
  with cond have pu: "pack_unsigned m b x = (m', b', c)"
    by (simp add: pack_int64_def)
  show ?thesis using full_width_code [OF _ _ n pu] VLongLong by simp
qed (use sv in simp_all)

text \<open>
  C2, amended (sign round trip). For every negative value \<open>v\<close> of int32_t, int64_t or
  long long, \<open>pack\<close> returns and \<open>unpack<T>\<close> with the returned code reproduces exactly
  \<open>v\<close>. The code is above 8 (and at most 15) when \<open>- 2 ^ (8 * (sizeof(T) - 1)) < v\<close>;
  for the other negative values it is sizeof(T).
\<close>

theorem C2_sign_roundtrip:
  assumes sv: "signed_value v = Some i" and neg: "i < 0"
  shows "\<exists>m' buffer' code.
     pack m buffer v = Inr (m', buffer', code) \<and>
     unpack_as f2d (type_of v) m' buffer (of_nat code) = Inr (v, buffer') \<and>
     (if - (2 ^ (8 * (sizeof (type_of v) - 1))) < i
      then 8 < code \<and> code \<le> 15
      else code = sizeof (type_of v))"
proof -
  obtain m' buffer' code where p: "pack m buffer v = Inr (m', buffer', code)"
    using pack_total by blast
  have rt: "unpack_as f2d (type_of v) m' buffer (of_nat code) = Inr (v, buffer')"
    by (rule pack_unpack_as [OF p]) simp
  have ng: "negating v \<longleftrightarrow> - (2 ^ (8 * (sizeof (type_of v) - 1))) < i"
    using sv neg by (simp add: negating_range)
  have s: "sizeof (type_of v) \<le> 8" by (cases v) simp_all
  have "if - (2 ^ (8 * (sizeof (type_of v) - 1))) < i
      then 8 < code \<and> code \<le> 15
      else code = sizeof (type_of v)"
  proof (cases "negating v")
    case True
    with pack_code [OF p] s ng show ?thesis by auto
  next
    case False
    with signed_full_width [OF sv neg False p] ng show ?thesis by simp
  qed
  with p rt show ?thesis by blast
qed

theorem C2_sign_roundtrip_witness:
  "signed_value (VI32 (- 5)) = Some (- 5) \<and> (- 5 :: int) < 0 \<and>
   (\<exists>m'. pack (\<lambda>_. 0) 0 (VI32 (- 5)) = Inr (m', 1, 9) \<and>
      unpack_as (\<lambda>_. 0) TI32 m' 0 9 = Inr (VI32 (- 5), 1)) \<and>
   signed_value (VI64 (- (2 ^ 63))) = Some (- (2 ^ 63)) \<and>
   (\<exists>m'. pack (\<lambda>_. 0) 0 (VI64 (- (2 ^ 63))) = Inr (m', 8, 8) \<and>
      unpack_as (\<lambda>_. 0) TI64 m' 0 8 = Inr (VI64 (- (2 ^ 63)), 8))"
proof -
  have sv: "signed_value (VI32 (- 5)) = Some (- 5)" and neg: "(- 5 :: int) < 0"
    by simp_all
  have sv2: "signed_value (VI64 (- (2 ^ 63))) = Some (- (2 ^ 63))"
    and neg2: "(- (2 ^ 63) :: int) < 0"
    by simp_all
  show ?thesis
    using C2_sign_roundtrip [OF sv neg, of "\<lambda>_. 0" 0 "\<lambda>_. 0"]
      C2_sign_roundtrip [OF sv2 neg2, of "\<lambda>_. 0" 0 "\<lambda>_. 0"]
    by (simp add: pack_int32_def pack_int64_def negate_def pack_unsigned_def word_sle_eq)
qed

section \<open>Minimal widths\<close>

lemma min_bytes_eq:
  assumes "1 \<le> k" and "n < 2 ^ (8 * k)" and "k = 1 \<or> 2 ^ (8 * (k - 1)) \<le> n"
  shows "min_bytes n = k"
  using assms
proof (induction k arbitrary: n)
  case 0
  then show ?case by simp
next
  case (Suc k)
  show ?case
  proof (cases "k = 0")
    case True
    with Suc.prems show ?thesis by (simp add: min_bytes.simps)
  next
    case False
    with Suc.prems have lo: "2 ^ (8 * k) \<le> n" by simp
    have "(256::nat) = 2 ^ 8" by simp
    also have "\<dots> \<le> 2 ^ (8 * k)" by (rule power_increasing) (use False in simp_all)
    finally have ge: "256 \<le> n" using lo by simp
    have up: "n div 256 < 2 ^ (8 * k)"
      using Suc.prems(2) by (simp add: less_mult_imp_div_less power_add)
    have k: "8 * k = 8 * (k - 1) + 8" using False by simp
    have "2 ^ (8 * (k - 1)) \<le> n div 256"
      using lo by (simp add: k power_add less_eq_div_iff_mult_less_eq)
    then have "min_bytes (n div 256) = k"
      using False up by (intro Suc.IH) simp_all
    with ge show ?thesis by (simp add: min_bytes.simps [of n])
  qed
qed

lemma pack_unsigned_min_bytes:
  fixes val :: "'a::len word"
  assumes len: "LENGTH('a) \<le> 64" and dvd: "8 dvd LENGTH('a)"
    and p: "pack_unsigned m b val = (m', b', c)"
  shows "c = min_bytes (unat val)"
  using pack_unsigned_code(1,5,6) [OF len dvd p] by (simp add: min_bytes_eq)

lemma minimal_below:
  assumes "c = 1 \<or> 2 ^ (8 * (c - 1)) \<le> (n::nat)" and "1 \<le> j" and "j < c"
  shows "\<not> n < 2 ^ (8 * j)"
proof -
  from assms have "(2::nat) ^ (8 * (c - 1)) \<le> n" by auto
  moreover have "(2::nat) ^ (8 * j) \<le> 2 ^ (8 * (c - 1))"
    by (rule power_increasing) (use assms in simp_all)
  ultimately have "(2::nat) ^ (8 * j) \<le> n" by (rule order_trans [rotated])
  then show ?thesis by simp
qed

lemma unat_of_sint:
  fixes x :: "'a::len word"
  shows "unat x = nat (sint x mod 2 ^ LENGTH('a))"
  by (simp add: unat_eq_nat_uint uint_sint take_bit_eq_mod del: unsigned_take_bit_eq)

lemma negative_min_bytes:
  fixes x :: "'a::len word"
  assumes dvd: "8 dvd LENGTH('a)" and neg: "sint x < 0"
  shows "min_bytes (unat x) = LENGTH('a) div 8"
proof -
  from dvd obtain s where s: "LENGTH('a) = 8 * s" by (rule dvdE)
  then have s1: "1 \<le> s" using len_gt_0 [where 'a = 'a] by simp
  have "unat x < 2 ^ LENGTH('a)" by (rule unsigned_less)
  then have up: "unat x < 2 ^ (8 * s)" by (simp add: s)
  have "(2::nat) ^ (8 * (s - 1)) \<le> 2 ^ (LENGTH('a) - 1)"
    by (rule power_increasing) (use s s1 in simp_all)
  also have "\<dots> \<le> unat x" by (rule negative_bit_pattern [OF neg])
  finally have "min_bytes (unat x) = s"
    using s1 up by (intro min_bytes_eq) simp_all
  then show ?thesis by (simp add: s)
qed

lemma nonneg_unat:
  fixes x :: "'a::len word"
  assumes "0 \<le> sint x"
  shows "unat x = nat \<bar>sint x\<bar>"
proof -
  have "sint x < 2 ^ (LENGTH('a) - 1)" by (rule sint_lt)
  also have "(2::int) ^ (LENGTH('a) - 1) \<le> 2 ^ LENGTH('a)"
    by (rule power_increasing) simp_all
  finally have "sint x mod 2 ^ LENGTH('a) = sint x"
    using assms by simp
  then show ?thesis using assms by (simp add: unat_of_sint)
qed

lemma signed_width_direct:
  fixes x :: "'a::len word"
  assumes len: "LENGTH('a) \<le> 64" and dvd: "8 dvd LENGTH('a)"
    and range: "0 \<le> sint x \<or> sint x \<le> - (2 ^ (LENGTH('a) - 8))"
    and p: "pack_unsigned m b x = (m', b', c)"
  shows "c = min (min_bytes (unat x)) (min_bytes (nat \<bar>sint x\<bar>))"
proof (cases "0 \<le> sint x")
  case True
  then show ?thesis
    using pack_unsigned_min_bytes [OF len dvd p] nonneg_unat [OF True] by simp
next
  case False
  with range have lo: "sint x \<le> - (2 ^ (LENGTH('a) - 8))" and neg: "sint x < 0" by simp_all
  from dvd obtain s where s: "LENGTH('a) = 8 * s" by (rule dvdE)
  then have s1: "1 \<le> s" using len_gt_0 [where 'a = 'a] by simp
  have c: "c = s" using full_width_code [OF len dvd neg p] by (simp add: s)
  have d: "min_bytes (unat x) = s" using negative_min_bytes [OF dvd neg] by (simp add: s)
  have "- (2 ^ (LENGTH('a) - 1)) \<le> sint x" by (rule sint_ge)
  then have "\<bar>sint x\<bar> \<le> 2 ^ (LENGTH('a) - 1)" using neg by simp
  also have "(2::int) ^ (LENGTH('a) - 1) < 2 ^ LENGTH('a)"
    by (rule power_strict_increasing) simp_all
  finally have "nat \<bar>sint x\<bar> < nat (2 ^ (8 * s))" using s by simp
  then have up: "nat \<bar>sint x\<bar> < 2 ^ (8 * s)" by simp
  have "LENGTH('a) - 8 = 8 * (s - 1)" using s by simp
  with lo have "sint x \<le> - (2 ^ (8 * (s - 1)))" by simp
  then have "(2::int) ^ (8 * (s - 1)) \<le> \<bar>sint x\<bar>" by linarith
  then have "nat (2 ^ (8 * (s - 1))) \<le> nat \<bar>sint x\<bar>" by (rule nat_mono)
  then have "2 ^ (8 * (s - 1)) \<le> nat \<bar>sint x\<bar>" by simp
  then have "min_bytes (nat \<bar>sint x\<bar>) = s"
    using s1 up by (intro min_bytes_eq) simp_all
  with c d show ?thesis by simp
qed

lemma signed_width_negated:
  fixes x :: "'a::len word"
  assumes len: "LENGTH('a) \<le> 64" and dvd: "8 dvd LENGTH('a)"
    and lo: "- (2 ^ (LENGTH('a) - 8)) < sint x" and hi: "sint x < 0"
    and p: "pack_unsigned m b (- x) = (m', b', c)"
  shows "c = min (min_bytes (unat x)) (min_bytes (nat \<bar>sint x\<bar>))"
proof -
  from dvd obtain s where s: "LENGTH('a) = 8 * s" by (rule dvdE)
  then have s1: "1 \<le> s" using len_gt_0 [where 'a = 'a] by simp
  have j: "LENGTH('a) - 8 < LENGTH('a)" using s s1 by simp
  have "uint (- x) = - sint x" by (rule neg_magnitude(1) [OF lo hi j])
  then have "unat (- x) = nat \<bar>sint x\<bar>" using hi by (simp add: unat_eq_nat_uint)
  then have c: "c = min_bytes (nat \<bar>sint x\<bar>)"
    using pack_unsigned_min_bytes [OF len dvd p] by simp
  have "\<forall>a. b \<le> a \<and> a < b' \<longrightarrow> m' a = m' a" by simp
  from roundtrip_negated(3) [OF len dvd lo hi p this]
  have "c < LENGTH('a) div 8" .
  then show ?thesis
    using c negative_min_bytes [OF dvd hi] by simp
qed

lemma unsigned_minimal:
  fixes x :: "'a::len word"
  assumes len: "LENGTH('a) \<le> 64" and dvd: "8 dvd LENGTH('a)"
    and p: "pack_unsigned m b x = (m', b', c)"
  shows "1 \<le> c \<and> c \<le> LENGTH('a) div 8 \<and> unat x < 2 ^ (8 * c) \<and>
         (\<forall>j. 1 \<le> j \<and> j < c \<longrightarrow> \<not> unat x < 2 ^ (8 * j)) \<and>
         c = min_bytes (unat x) \<and> b' = b + int c"
  using pack_unsigned_code [OF len dvd p] pack_unsigned_min_bytes [OF len dvd p]
    minimal_below [of c "unat x"]
  by blast

lemma int32_width:
  assumes p: "pack_int32 m b x = Inr (m', b', c)"
  shows "b' - b = int (min (min_bytes (unat x)) (min_bytes (nat \<bar>sint x\<bar>)))"
proof (cases "negating (VI32 x)")
  case True
  then have r: "- (2 ^ (LENGTH(32) - 8)) < sint x" "sint x < 0"
    by (simp_all add: word_sle_eq)
  have "pack_int32 m b x = (case pack_unsigned m b (- x) of (m', b', c) \<Rightarrow> Inr (m', b', 8 + c))"
    by (simp only: pack_int32_branches True if_True)
  with p obtain c' where c': "pack_unsigned m b (- x) = (m', b', c')"
    by (auto split: prod.splits)
  have "b' = b + int c'" using pack_unsigned_code(3) [OF _ _ c'] by simp
  then show ?thesis using signed_width_negated [OF _ _ r c'] by simp
next
  case False
  then have r: "0 \<le> sint x \<or> sint x \<le> - (2 ^ (LENGTH(32) - 8))"
    by (simp add: word_sle_eq)
  have "pack_int32 m b x = Inr (pack_unsigned m b x)"
    by (simp only: pack_int32_branches False if_False)
  with p have pu: "pack_unsigned m b x = (m', b', c)"
    by simp
  have "b' = b + int c" using pack_unsigned_code(3) [OF _ _ pu] by simp
  then show ?thesis using signed_width_direct [OF _ _ r pu] by simp
qed

lemma int64_width:
  assumes p: "pack_int64 m b x = Inr (m', b', c)"
  shows "b' - b = int (min (min_bytes (unat x)) (min_bytes (nat \<bar>sint x\<bar>)))"
proof (cases "negating (VI64 x)")
  case True
  then have r: "- (2 ^ (LENGTH(64) - 8)) < sint x" "sint x < 0"
    by (simp_all add: word_sle_eq)
  have "pack_int64 m b x = (case pack_unsigned m b (- x) of (m', b', c) \<Rightarrow> Inr (m', b', 8 + c))"
    by (simp only: pack_int64_branches True if_True)
  with p obtain c' where c': "pack_unsigned m b (- x) = (m', b', c')"
    by (auto split: prod.splits)
  have "b' = b + int c'" using pack_unsigned_code(3) [OF _ _ c'] by simp
  then show ?thesis using signed_width_negated [OF _ _ r c'] by simp
next
  case False
  then have r: "0 \<le> sint x \<or> sint x \<le> - (2 ^ (LENGTH(64) - 8))"
    by (simp add: word_sle_eq)
  have "pack_int64 m b x = Inr (pack_unsigned m b x)"
    by (simp only: pack_int64_branches False if_False)
  with p have pu: "pack_unsigned m b x = (m', b', c)"
    by simp
  have "b' = b + int c" using pack_unsigned_code(3) [OF _ _ pu] by simp
  then show ?thesis using signed_width_direct [OF _ _ r pu] by simp
qed

text \<open>
  C6 (minimality). For every unsigned integer value, the code that \<open>pack\<close> returns is the
  number of bytes by which it bumps the buffer pointer and is the smallest \<open>b\<close> between 1
  and sizeof(T) with \<open>v < 2 ^ (8 * b)\<close>. For every signed integer value the number of
  bytes by which \<open>pack\<close> bumps the buffer pointer is the smaller of the bytes needed by
  the bit pattern of the value and the bytes needed by its magnitude.
\<close>

theorem C6_minimal_width:
  assumes p: "pack m buffer v = Inr (m', buffer', code)"
  shows
    "(\<forall>n. unsigned_value v = Some n \<longrightarrow>
        1 \<le> code \<and> code \<le> sizeof (type_of v) \<and> n < 2 ^ (8 * code) \<and>
        (\<forall>j. 1 \<le> j \<and> j < code \<longrightarrow> \<not> n < 2 ^ (8 * j)) \<and>
        code = min_bytes n \<and> buffer' = buffer + int code) \<and>
     (\<forall>i. signed_value v = Some i \<longrightarrow>
        buffer' - buffer =
          int (min (min_bytes (nat (i mod 2 ^ (8 * sizeof (type_of v)))))
                   (min_bytes (nat \<bar>i\<bar>))))"
proof (cases v)
  case (VU8 x)
  with p have pu: "pack_unsigned m buffer x = (m', buffer', code)" by simp
  have "1 \<le> code \<and> code \<le> LENGTH(8) div 8 \<and> unat x < 2 ^ (8 * code) \<and>
         (\<forall>j. 1 \<le> j \<and> j < code \<longrightarrow> \<not> unat x < 2 ^ (8 * j)) \<and>
         code = min_bytes (unat x) \<and> buffer' = buffer + int code"
    by (rule unsigned_minimal [OF _ _ pu]) simp_all
  then show ?thesis unfolding VU8 by auto
next
  case (VU16 x)
  with p have pu: "pack_unsigned m buffer x = (m', buffer', code)" by simp
  have "1 \<le> code \<and> code \<le> LENGTH(16) div 8 \<and> unat x < 2 ^ (8 * code) \<and>
         (\<forall>j. 1 \<le> j \<and> j < code \<longrightarrow> \<not> unat x < 2 ^ (8 * j)) \<and>
         code = min_bytes (unat x) \<and> buffer' = buffer + int code"
    by (rule unsigned_minimal [OF _ _ pu]) simp_all
  then show ?thesis unfolding VU16 by auto
next
  case (VU32 x)
  with p have pu: "pack_unsigned m buffer x = (m', buffer', code)" by simp
  have "1 \<le> code \<and> code \<le> LENGTH(32) div 8 \<and> unat x < 2 ^ (8 * code) \<and>
         (\<forall>j. 1 \<le> j \<and> j < code \<longrightarrow> \<not> unat x < 2 ^ (8 * j)) \<and>
         code = min_bytes (unat x) \<and> buffer' = buffer + int code"
    by (rule unsigned_minimal [OF _ _ pu]) simp_all
  then show ?thesis unfolding VU32 by auto
next
  case (VU64 x)
  with p have pu: "pack_unsigned m buffer x = (m', buffer', code)" by simp
  have "1 \<le> code \<and> code \<le> LENGTH(64) div 8 \<and> unat x < 2 ^ (8 * code) \<and>
         (\<forall>j. 1 \<le> j \<and> j < code \<longrightarrow> \<not> unat x < 2 ^ (8 * j)) \<and>
         code = min_bytes (unat x) \<and> buffer' = buffer + int code"
    by (rule unsigned_minimal [OF _ _ pu]) simp_all
  then show ?thesis unfolding VU64 by auto
next
  case (VI32 x)
  with p have "pack_int32 m buffer x = Inr (m', buffer', code)" by simp
  from int32_width [OF this] show ?thesis
    using VI32 unat_of_sint [of x] by simp
next
  case (VI64 x)
  with p have "pack_int64 m buffer x = Inr (m', buffer', code)" by simp
  from int64_width [OF this] show ?thesis
    using VI64 unat_of_sint [of x] by simp
next
  case (VLongLong x)
  with p have "pack_int64 m buffer x = Inr (m', buffer', code)"
    by (simp add: pack_longlong_eq)
  from int64_width [OF this] show ?thesis
    using VLongLong unat_of_sint [of x] by simp
qed simp_all

theorem C6_minimal_width_witness:
  "pack (\<lambda>_. 0) 0 (VU32 256) = Inr (memcpy_from (\<lambda>_. 0) 0 (256 :: 32 word) 4, 2, 2) \<and>
   unsigned_value (VU32 256) = Some 256 \<and>
   (256 :: nat) < 2 ^ (8 * 2) \<and> \<not> (256 :: nat) < 2 ^ (8 * 1) \<and> min_bytes 256 = 2 \<and>
   pack (\<lambda>_. 0) 0 (VI32 (- 5)) = Inr (memcpy_from (\<lambda>_. 0) 0 (5 :: 32 word) 4, 1, 9) \<and>
   signed_value (VI32 (- 5)) = Some (- 5) \<and>
   min (min_bytes 4294967291) (min_bytes 5) = 1"
proof -
  have p: "pack (\<lambda>_. 0) 0 (VU32 256) = Inr (memcpy_from (\<lambda>_. 0) 0 (256 :: 32 word) 4, 2, 2)"
    by (simp add: pack_unsigned_def)
  have u: "unsigned_value (VU32 256) = Some 256"
    by simp
  have "(2::nat) = min_bytes 256"
    using C6_minimal_width [OF p] u by blast
  then have a: "min_bytes 256 = 2"
    by (rule sym)
  have q: "pack (\<lambda>_. 0) 0 (VI32 (- 5)) = Inr (memcpy_from (\<lambda>_. 0) 0 (5 :: 32 word) 4, 1, 9)"
    by (simp add: pack_int32_def negate_def pack_unsigned_def word_sle_eq)
  have s: "signed_value (VI32 (- 5)) = Some (- 5)"
    by simp
  have "(1::int) - 0 = int (min (min_bytes (nat ((- 5) mod 2 ^ (8 * sizeof (type_of (VI32 (- 5)))))))
      (min_bytes (nat \<bar>- 5 :: int\<bar>)))"
    using C6_minimal_width [OF q] s by blast
  then have b: "min (min_bytes 4294967291) (min_bytes 5) = 1"
    by simp
  from p u a q s b show ?thesis
    by simp
qed

section \<open>What pack writes\<close>

lemma byte_of_value:
  fixes x :: "'a::len word"
  shows "(ucast (drop_bit k x) :: byte) = of_nat (unat x div 2 ^ k)"
proof -
  have "(ucast (drop_bit k x) :: byte) = of_nat (unat (drop_bit k x))"
    by simp
  also have "unat (drop_bit k x) = drop_bit k (unat x)"
    by (rule unat_drop_bit_eq)
  also have "\<dots> = unat x div 2 ^ k"
    by (rule drop_bit_eq_div)
  finally show ?thesis .
qed

lemma unsigned_frame:
  fixes x :: "'a::len word"
  assumes len: "LENGTH('a) \<le> 64" and dvd: "8 dvd LENGTH('a)"
    and p: "pack_unsigned m b x = (m', b', c)"
  shows "b' = b + int c \<and>
         (\<forall>i < LENGTH('a) div 8. m' (b + int i) = of_nat (unat x div 2 ^ (8 * i))) \<and>
         (\<forall>i. c \<le> i \<and> i < LENGTH('a) div 8 \<longrightarrow> m' (b + int i) = 0) \<and>
         (\<forall>a. a < b \<or> b + int (LENGTH('a) div 8) \<le> a \<longrightarrow> m' a = m a)"
proof -
  note c = pack_unsigned_code [OF len dvd p]
  have bytes: "m' (b + int i) = of_nat (unat x div 2 ^ (8 * i))" if "i < LENGTH('a) div 8" for i
    using that by (simp add: c(4) memcpy_from_inside byte_of_value)
  have zero: "m' (b + int i) = 0" if "c \<le> i" "i < LENGTH('a) div 8" for i
  proof -
    have "(2::nat) ^ (8 * c) \<le> 2 ^ (8 * i)"
      by (rule power_increasing) (use that in simp_all)
    with c(5) have "unat x < 2 ^ (8 * i)" by linarith
    then have "unat x div 2 ^ (8 * i) = 0" by (rule div_less)
    with bytes [OF that(2)] show ?thesis by simp
  qed
  have out: "m' a = m a" if "a < b \<or> b + int (LENGTH('a) div 8) \<le> a" for a
    using that by (simp add: c(4) memcpy_from_outside)
  from c(3) bytes zero out show ?thesis by blast
qed

text \<open>
  C8 as stated fails: packing the uint32_t value 5 where every byte of the buffer is 0xFF
  returns code 1 and bumps the pointer by 1, and the byte at offset 1 is 0 afterwards. The
  memcpy of \<open>pack\<close> stores all sizeof(T) bytes of the value; only the pointer is bumped
  by the code.
\<close>

theorem C8_counterexample:
  "pack (\<lambda>_. 0xFF) 0 (VU32 5) = Inr (memcpy_from (\<lambda>_. 0xFF) 0 (5 :: 32 word) 4, 1, 1) \<and>
   memcpy_from (\<lambda>_. 0xFF) 0 (5 :: 32 word) 4 1 = 0"
  by (simp add: pack_unsigned_def memcpy_from_def)

text \<open>
  C8, amended (frame). Packing an unsigned integer value \<open>v\<close> of type \<open>T\<close> with code
  \<open>b\<close> bumps the buffer pointer by \<open>b\<close> and stores the sizeof(T) bytes of \<open>v\<close> at the
  old pointer, least significant first: the low \<open>b\<close> bytes of \<open>v\<close> and then
  sizeof(T) - b zero bytes. Every byte before the old pointer and every byte at offset
  sizeof(T) or more past it is unchanged.
\<close>

theorem C8_frame:
  assumes u: "unsigned_value v = Some n"
    and p: "pack m buffer v = Inr (m', buffer', code)"
  shows
    "buffer' = buffer + int code \<and>
     (\<forall>i < sizeof (type_of v). m' (buffer + int i) = of_nat (n div 2 ^ (8 * i))) \<and>
     (\<forall>i. code \<le> i \<and> i < sizeof (type_of v) \<longrightarrow> m' (buffer + int i) = 0) \<and>
     (\<forall>a. a < buffer \<or> buffer + int (sizeof (type_of v)) \<le> a \<longrightarrow> m' a = m a)"
proof (cases v)
  case (VU8 x)
  with p have pu: "pack_unsigned m buffer x = (m', buffer', code)" by simp
  from u VU8 have n: "n = unat x" by simp
  have "LENGTH(8) \<le> (64::nat)" "8 dvd LENGTH(8)" by simp_all
  from unsigned_frame [OF this pu] show ?thesis unfolding VU8 n by auto
next
  case (VU16 x)
  with p have pu: "pack_unsigned m buffer x = (m', buffer', code)" by simp
  from u VU16 have n: "n = unat x" by simp
  have "LENGTH(16) \<le> (64::nat)" "8 dvd LENGTH(16)" by simp_all
  from unsigned_frame [OF this pu] show ?thesis unfolding VU16 n by auto
next
  case (VU32 x)
  with p have pu: "pack_unsigned m buffer x = (m', buffer', code)" by simp
  from u VU32 have n: "n = unat x" by simp
  have "LENGTH(32) \<le> (64::nat)" "8 dvd LENGTH(32)" by simp_all
  from unsigned_frame [OF this pu] show ?thesis unfolding VU32 n by auto
next
  case (VU64 x)
  with p have pu: "pack_unsigned m buffer x = (m', buffer', code)" by simp
  from u VU64 have n: "n = unat x" by simp
  have "LENGTH(64) \<le> (64::nat)" "8 dvd LENGTH(64)" by simp_all
  from unsigned_frame [OF this pu] show ?thesis unfolding VU64 n by auto
qed (use u in simp_all)

theorem C8_frame_witness:
  "unsigned_value (VU32 5) = Some 5 \<and>
   pack (\<lambda>_. 0xFF) 10 (VU32 5) = Inr (memcpy_from (\<lambda>_. 0xFF) 10 (5 :: 32 word) 4, 11, 1) \<and>
   memcpy_from (\<lambda>_. 0xFF) 10 (5 :: 32 word) 4 10 = 5 \<and>
   memcpy_from (\<lambda>_. 0xFF) 10 (5 :: 32 word) 4 11 = 0 \<and>
   memcpy_from (\<lambda>_. 0xFF) 10 (5 :: 32 word) 4 13 = 0 \<and>
   memcpy_from (\<lambda>_. 0xFF) 10 (5 :: 32 word) 4 14 = 0xFF \<and>
   memcpy_from (\<lambda>_. 0xFF) 10 (5 :: 32 word) 4 9 = 0xFF"
proof -
  have u: "unsigned_value (VU32 5) = Some 5"
    by simp
  have p: "pack (\<lambda>_. 0xFF) 10 (VU32 5) = Inr (memcpy_from (\<lambda>_. 0xFF) 10 (5 :: 32 word) 4, 11, 1)"
    by (simp add: pack_unsigned_def)
  note t = C8_frame [OF u p]
  from t have z: "\<forall>i. 1 \<le> i \<and> i < sizeof (type_of (VU32 5)) \<longrightarrow>
      memcpy_from (\<lambda>_. 0xFF) 10 (5 :: 32 word) 4 (10 + int i) = 0"
    by blast
  from t have o: "\<forall>a. a < 10 \<or> 10 + int (sizeof (type_of (VU32 5))) \<le> a \<longrightarrow>
      memcpy_from (\<lambda>_. 0xFF) 10 (5 :: 32 word) 4 a = (\<lambda>_. 0xFF) a"
    by blast
  from t have f: "\<forall>i < sizeof (type_of (VU32 5)).
      memcpy_from (\<lambda>_. 0xFF) 10 (5 :: 32 word) 4 (10 + int i) = of_nat (5 div 2 ^ (8 * i))"
    by blast
  from f [rule_format, of 0] z [rule_format, of 1] z [rule_format, of 3]
    o [rule_format, of 14] o [rule_format, of 9] u p
  show ?thesis by simp
qed

section \<open>Code 0\<close>

text \<open>
  C3 (code 0). The integral \<open>unpack<T>\<close> tests \<open>packResult <= 8\<close> first, and 0 passes
  that test: called with code 0 it copies no byte, returns 0 and leaves its pointer where
  it was, for every integral \<open>T\<close> and for pointers. It does not consume 16 bytes; the
  \<open>packResult == 0 ? 16\<close> of its second branch is never reached. The floating-point
  \<open>unpack\<close> does take 16 bytes for code 0: that overruns a float or a double, and reads a
  16-byte floating-point type in full.
\<close>

theorem C3_unpack_code_zero:
  "(unpack m inp 0 :: fault + 'a::len word \<times> addr) = Inr (0, inp) \<and>
   unpack_as f2d TU32 m inp 0 = Inr (VU32 0, inp) \<and>
   unpack_as f2d TPointer m inp 0 = Inr (VPointer 0, inp) \<and>
   unpack_as f2d TFloat m inp 0 = Inl Overrun \<and>
   unpack_as f2d TDouble m inp 0 = Inl Overrun \<and>
   unpack_floating f m inp 0 = Inr (memcpy_to m inp 16 :: 128 word, inp + 16)"
  by (simp add: unpack_def unpack_pointer_def unpack_floating_def tagged_def)

text \<open>
  C4 (width of a code). For the code 0 the two byte widths differ: over a stream of one
  nibble of code 0, getSizeOfPackedValues counts 16 bytes, the width the specification
  gives to code 0, while the integral \<open>unpack<T>\<close> with code 0 bumps its pointer by 0.
  (For the codes 1 to 15 they agree: lemma \<open>unpack_advance\<close> below.)
\<close>

theorem C4_width_of_code_zero:
  "nibble_at (\<lambda>_. 0) 0 0 = 0 \<and>
   code_width 0 = 16 \<and>
   getSizeOfPackedValues (\<lambda>_. 0) 0 1 = 16 \<and>
   (unpack (\<lambda>_. 0) 0 0 :: fault + 64 word \<times> addr) = Inr (0, 0)"
  by (simp add: nibble_at_def first_def code_width_def getSizeOfPackedValues_def
      getSize_loop.simps unpack_def)

lemma code_width_of_code:
  assumes "1 \<le> c" and "c \<le> 15"
  shows "code_width (of_nat c) = (if 8 < c then c - 8 else c)"
proof -
  have u: "unat (of_nat c :: byte) = c"
    using assms by (simp add: unat_of_nat)
  then have "(of_nat c :: byte) \<noteq> 0"
    using assms by (metis not_one_le_zero unat_0)
  moreover have "8 < (of_nat c :: byte) \<longleftrightarrow> 8 < c"
    using u by (simp add: word_less_nat_alt)
  ultimately show ?thesis
    using u by (simp add: code_width_def)
qed

lemma memcpy_to_bound:
  "uint (memcpy_to m p k :: 'a::len word) < 2 ^ (8 * k)"
proof -
  have "take_bit (8 * k) (memcpy_to m p k :: 'a word) = memcpy_to m p k"
    by (rule bit_word_eqI) (auto simp: bit_take_bit_iff bit_memcpy_to)
  then have "uint (memcpy_to m p k :: 'a word) = take_bit (8 * k) (uint (memcpy_to m p k :: 'a word))"
    by (metis unsigned_take_bit_eq)
  also have "\<dots> < 2 ^ (8 * k)"
    by (rule take_bit_int_less_exp)
  finally show ?thesis .
qed

text \<open>For the codes 1 to 15 the integral unpack bumps its pointer by the width of the code.\<close>

lemma unpack_advance:
  assumes "c \<noteq> 0" and "c < 16"
  shows "\<exists>v. (unpack m inp c :: fault + 'a::len word \<times> addr) = Inr (v, inp + int (code_width c))"
proof -
  define n where "n = unat c"
  have c: "c = of_nat n" by (simp add: n_def)
  have "n < 16" using assms(2) by (simp add: n_def word_less_nat_alt)
  moreover have "n \<noteq> 0" using assms(1) by (simp add: n_def unat_eq_0)
  ultimately consider "n \<le> 8" "1 \<le> n" | "1 \<le> n - 8" "n - 8 \<le> 7" "n = 8 + (n - 8)"
    by linarith
  then show ?thesis
  proof cases
    case 1
    have w: "code_width (of_nat n) = n"
      using 1 code_width_of_code [of n] by simp
    show ?thesis
      unfolding c w using of_nat_code_le8 [OF 1(1)] by (simp add: unpack_def)
  next
    case 2
    from 2 have "1 \<le> n" "n \<le> 15" "8 < n" by linarith+
    then have w: "code_width (of_nat n) = n - 8"
      using code_width_of_code [of n] by simp
    have "uint (memcpy_to m inp (n - 8) :: 64 word) < 2 ^ (8 * (n - 8))"
      by (rule memcpy_to_bound)
    also have "(2::int) ^ (8 * (n - 8)) \<le> 2 ^ 63"
      by (rule power_increasing) (use 2 in simp_all)
    finally have "uint (memcpy_to m inp (n - 8) :: 64 word) < 2 ^ (LENGTH(64) - 1)"
      by simp
    then have neg: "negate (memcpy_to m inp (n - 8) :: 64 word) = Some (- memcpy_to m inp (n - 8))"
      by (rule negate_small)
    have "\<exists>v. (unpack m inp (of_nat (8 + (n - 8))) :: fault + 'a word \<times> addr)
        = Inr (v, inp + int (n - 8))"
      using of_nat_code_neg [OF 2(1,2)] 2(2) neg by (simp add: unpack_def Let_def)
    then show ?thesis
      unfolding c w using 2(3) by simp
  qed
qed

section \<open>The size of a run of nibbles\<close>

lemma code_width_word:
  fixes f :: byte
  shows "(of_nat (code_width f) :: 32 word) =
           (if f = 0 then 16 else if 8 < f then ucast f - 8 else ucast f)"
proof -
  have "(of_nat (unat f - 8) :: 32 word) = of_nat (unat f) - 8" if "8 < f"
  proof -
    from that have "8 \<le> unat f" by (simp add: word_less_nat_alt)
    then show ?thesis by (simp add: of_nat_diff)
  qed
  then show ?thesis
    by (simp add: code_width_def)
qed

lemma pair_value:
  fixes f s :: byte and sz :: "32 word"
  shows "(let sz1 = sz + (ucast f + ucast s);
              sz2 = (if f = 0 then sz1 + 16 else sz1);
              sz3 = (if f > 0x8 then sz2 - 8 else sz2);
              sz4 = (if s = 0 then sz3 + 16 else sz3);
              sz5 = (if s > 0x8 then sz4 - 8 else sz4)
          in sz5) = sz + of_nat (code_width f) + of_nat (code_width s)"
  by (cases "f = 0"; cases "s = 0"; cases "8 < f"; cases "8 < s")
    (simp_all add: code_width_word Let_def)

lemma single_contribution:
  fixes f :: byte and sz :: "32 word"
  shows "(let sz1 = sz + ucast f; sz2 = (if f = 0 then sz1 + 16 else sz1)
          in if f > 0x8 then sz2 - 8 else sz2) = sz + of_nat (code_width f)"
  by (cases "f = 0"; cases "8 < f") (simp_all add: code_width_word Let_def)

lemma nibble_at_even: "nibble_at m p (2 * u) = first (m (p + int u))"
  by (simp add: nibble_at_def)

lemma nibble_at_odd: "nibble_at m p (Suc (2 * u)) = second (m (p + int u))"
  by (simp add: nibble_at_def)

lemma unat_succ:
  fixes i k :: "'a::len word"
  assumes "i < k"
  shows "unat (i + 1) = unat i + 1"
proof -
  have "unat i < unat k" using assms by (simp add: word_less_nat_alt)
  moreover have "unat k < 2 ^ LENGTH('a)" by (rule unsigned_less)
  ultimately have "unat i + 1 < 2 ^ LENGTH('a)" by linarith
  then show ?thesis by (simp add: unat_word_ariths)
qed

lemma getSize_loop_sum:
  assumes "unat i \<le> unat (N div 2)"
  shows "getSize_loop m p N i sz =
           sz + of_nat (\<Sum>k = 2 * unat i ..< 2 * unat (N div 2). code_width (nibble_at m p k))"
  using assms
proof (induction "unat (N div 2) - unat i" arbitrary: i sz)
  case 0
  then have "\<not> i < N div 2" by (simp add: word_less_nat_alt)
  moreover from 0 have "unat i = unat (N div 2)" by simp
  ultimately show ?case by (simp add: getSize_loop.simps [of m p N i sz])
next
  case (Suc d)
  then have lt: "i < N div 2" by (simp add: word_less_nat_alt)
  have u: "unat (i + 1) = unat i + 1" by (rule unat_succ [OF lt])
  have le: "unat (i + 1) \<le> unat (N div 2)"
    using lt u by (simp add: word_less_nat_alt)
  have d: "d = unat (N div 2) - unat (i + 1)" using Suc.hyps(2) u by simp
  have ui: "uint i = int (unat i)" by simp
  have split: "(\<Sum>k = 2 * unat i ..< 2 * unat (N div 2). code_width (nibble_at m p k)) =
      code_width (first (m (p + int (unat i)))) + code_width (second (m (p + int (unat i)))) +
      (\<Sum>k = 2 * unat (i + 1) ..< 2 * unat (N div 2). code_width (nibble_at m p k))"
  proof -
    have a: "2 * unat i < 2 * unat (N div 2)" "Suc (2 * unat i) < 2 * unat (N div 2)"
      using lt by (simp_all add: word_less_nat_alt)
    have "(\<Sum>k = 2 * unat i ..< 2 * unat (N div 2). code_width (nibble_at m p k)) =
        code_width (nibble_at m p (2 * unat i)) +
        (\<Sum>k = Suc (2 * unat i) ..< 2 * unat (N div 2). code_width (nibble_at m p k))"
      by (rule sum.atLeast_Suc_lessThan [OF a(1)])
    also have "(\<Sum>k = Suc (2 * unat i) ..< 2 * unat (N div 2). code_width (nibble_at m p k)) =
        code_width (nibble_at m p (Suc (2 * unat i))) +
        (\<Sum>k = Suc (Suc (2 * unat i)) ..< 2 * unat (N div 2). code_width (nibble_at m p k))"
      by (rule sum.atLeast_Suc_lessThan [OF a(2)])
    finally show ?thesis
      by (simp add: nibble_at_even nibble_at_odd u)
  qed
  have "getSize_loop m p N i sz =
      getSize_loop m p N (i + 1)
        (sz + of_nat (code_width (first (m (p + uint i))))
            + of_nat (code_width (second (m (p + uint i)))))"
    using lt
    by (subst getSize_loop.simps) (simp only: if_True Let_def pair_value [unfolded Let_def])
  also have "\<dots> = sz + of_nat (code_width (first (m (p + uint i))))
            + of_nat (code_width (second (m (p + uint i))))
      + of_nat (\<Sum>k = 2 * unat (i + 1) ..< 2 * unat (N div 2). code_width (nibble_at m p k))"
    by (rule Suc.hyps(1) [OF d le])
  finally show ?case
    by (simp only: split ui of_nat_add add.assoc)
qed

lemma odd_count:
  fixes N :: "32 word"
  shows "N AND 0x1 \<noteq> 0 \<longleftrightarrow> odd (unat N)"
proof -
  have "odd (unat N) \<longleftrightarrow> bit (unat N) 0" by (simp add: bit_0)
  also have "\<dots> \<longleftrightarrow> bit N 0" by (simp add: bit_unsigned_iff)
  also have "\<dots> \<longleftrightarrow> odd N" by (simp add: bit_0)
  also have "\<dots> \<longleftrightarrow> N AND 1 \<noteq> 0"
    using even_word_iff [of N] by (simp add: even_word_def)
  finally show ?thesis by simp
qed

lemma getSizeOfPackedValues_sum:
  "getSizeOfPackedValues m p N = of_nat (\<Sum>k < unat N. code_width (nibble_at m p k))"
proof -
  have h: "unat (N div 2) = unat N div 2"
    by (simp add: unat_div_distrib)
  have "int (unat (N div 2)) = int (unat N div 2)"
    by (simp only: h)
  then have h2: "uint (N div 2) = int (unat N div 2)"
    by simp
  have loop: "getSize_loop m p N 0 0 =
      of_nat (\<Sum>k < 2 * (unat N div 2). code_width (nibble_at m p k))"
    using getSize_loop_sum [of 0 N m p 0] by (simp add: h atLeast0LessThan)
  show ?thesis
  proof (cases "odd (unat N)")
    case True
    then have n: "unat N = Suc (2 * (unat N div 2))" by (simp add: odd_two_times_div_two_succ)
    have "(\<Sum>k < unat N. code_width (nibble_at m p k)) =
        (\<Sum>k < 2 * (unat N div 2). code_width (nibble_at m p k)) +
        code_width (first (m (p + uint (N div 2))))"
      by (subst n) (simp add: nibble_at_even h2)
    then show ?thesis
      using True loop
      by (simp add: getSizeOfPackedValues_def odd_count single_contribution)
  next
    case False
    then have "unat N = 2 * (unat N div 2)" by simp
    then show ?thesis
      using False loop
      by (simp add: getSizeOfPackedValues_def odd_count)
  qed
qed

lemma pack_width:
  assumes p: "pack m b v = Inr (m', b', c)"
  shows "1 \<le> c" and "c \<le> 15" and "b' = b + int (code_width (of_nat c))"
proof -
  note c = pack_code [OF p]
  have s: "sizeof (type_of v) \<le> 8" by (cases v) simp_all
  show c1: "1 \<le> c" and c15: "c \<le> 15"
    using c s by (auto split: if_splits)
  have "b' = b + int (if 8 < c then c - 8 else c)"
    using c s by (auto split: if_splits)
  then show "b' = b + int (code_width (of_nat c))"
    by (simp only: code_width_of_code [OF c1 c15])
qed

lemma pack_all_total: "\<exists>m' b' codes. pack_all m b vs = Inr (m', b', codes)"
proof (induction vs arbitrary: m b)
  case Nil
  show ?case by simp
next
  case (Cons v vs)
  obtain ma ba c where p: "pack m b v = Inr (ma, ba, c)"
    using pack_total by blast
  obtain m' b' codes where "pack_all ma ba vs = Inr (m', b', codes)"
    using Cons.IH by blast
  with p show ?case by simp
qed

lemma pack_all_Cons:
  assumes "pack_all m b (v # vs) = Inr (m', b', codes)"
  obtains ma ba c cs where "pack m b v = Inr (ma, ba, c)"
    and "pack_all ma ba vs = Inr (m', b', cs)" and "codes = c # cs"
  using assms by (auto split: sum.splits prod.splits)

lemma pack_all_widths:
  assumes "pack_all m b vs = Inr (m', b', codes)"
  shows "length codes = length vs \<and> (\<forall>c \<in> set codes. 1 \<le> c \<and> c \<le> 15) \<and>
         b' = b + int (\<Sum>c\<leftarrow>codes. code_width (of_nat c))"
  using assms
proof (induction vs arbitrary: m b codes)
  case Nil
  then show ?case by simp
next
  case (Cons v vs)
  from Cons.prems obtain ma ba c cs where p: "pack m b v = Inr (ma, ba, c)"
    and r: "pack_all ma ba vs = Inr (m', b', cs)" and c: "codes = c # cs"
    by (rule pack_all_Cons)
  from Cons.IH [OF r] pack_width [OF p] show ?case
    by (simp add: c)
qed

lemma nibble_sum:
  assumes "\<forall>k < length codes. nibble_at m p k = of_nat (codes ! k)"
  shows "(\<Sum>k < length codes. code_width (nibble_at m p k)) =
         (\<Sum>c\<leftarrow>codes. code_width (of_nat c))"
proof -
  have "(\<Sum>c\<leftarrow>codes. code_width (of_nat c :: byte)) =
      (\<Sum>k = 0 ..< length codes. code_width (of_nat (codes ! k) :: byte))"
    by (simp add: sum_list_sum_nth)
  also have "\<dots> = (\<Sum>k = 0 ..< length codes. code_width (nibble_at m p k))"
    by (rule sum.cong) (use assms in simp_all)
  finally show ?thesis by (simp add: atLeast0LessThan)
qed

lemma size_of_run:
  assumes p: "pack_all m0 b vs = Inr (m1, b', codes)"
    and nib: "\<forall>k < length vs. nibble_at m p k = of_nat (codes ! k)"
    and n: "length vs < 2 ^ 32"
  shows "getSizeOfPackedValues m p (of_nat (length vs)) = word_of_int (b' - b)"
proof -
  note w = pack_all_widths [OF p]
  have u: "unat (of_nat (length vs) :: 32 word) = length vs"
    using n by (simp add: unat_of_nat)
  have "(\<Sum>k < length vs. code_width (nibble_at m p k)) = (\<Sum>c\<leftarrow>codes. code_width (of_nat c))"
    using nibble_sum [of codes m p] nib w by simp
  then have "getSizeOfPackedValues m p (of_nat (length vs)) =
      of_nat (\<Sum>c\<leftarrow>codes. code_width (of_nat c))"
    by (simp only: getSizeOfPackedValues_sum u)
  also have "\<dots> = word_of_int (b' - b)"
    using w by simp
  finally show ?thesis .
qed

lemma memcpy_from_ones:
  "memcpy_from (\<lambda>_. 0xFF) b (- 1 :: 64 word) 8 = (\<lambda>_. 0xFF)"
proof
  fix a :: addr
  show "memcpy_from (\<lambda>_. 0xFF) b (- 1 :: 64 word) 8 a = 0xFF"
  proof (cases "b \<le> a \<and> a < b + 8")
    case True
    then have k: "8 * nat (a - b) \<le> 56" by linarith
    have "(ucast (drop_bit (8 * nat (a - b)) (- 1 :: 64 word)) :: byte) = - 1"
      by (rule bit_word_eqI) (use k in \<open>auto simp: bit_ucast_iff bit_drop_bit_eq bit_mask_iff\<close>)
    with True show ?thesis by (simp add: memcpy_from_def)
  next
    case False
    then show ?thesis by (auto simp: memcpy_from_def)
  qed
qed

lemma pack_all_ones:
  "pack_all (\<lambda>_. 0xFF) b (replicate n (VU64 (- 1))) =
     Inr (\<lambda>_. 0xFF, b + 8 * int n, replicate n 8)"
proof (induction n arbitrary: b)
  case 0
  show ?case by simp
next
  case (Suc n)
  have "pack (\<lambda>_. 0xFF) b (VU64 (- 1)) = Inr (\<lambda>_. 0xFF, b + 8, 8)"
    by (simp add: pack_unsigned_def memcpy_from_ones)
  then show ?case
    by (simp add: Suc.IH algebra_simps)
qed

lemma getSize_eights:
  "getSizeOfPackedValues (\<lambda>_. 0x88) p N = 8 * N"
proof -
  have "nibble_at (\<lambda>_. 0x88) p k = 8" for k
    by (simp add: nibble_at_def first_def second_def)
  then have "getSizeOfPackedValues (\<lambda>_. 0x88) p N = of_nat (\<Sum>k < unat N. code_width 8)"
    by (simp only: getSizeOfPackedValues_sum)
  also have "\<dots> = 8 * N"
    by (simp add: code_width_def)
  finally show ?thesis .
qed

text \<open>
  C7 as stated fails for long runs: getSizeOfPackedValues adds up in a \<open>uint32_t\<close>.
  Packing \<open>2 ^ 29\<close> values of type uint64_t, each \<open>2 ^ 64 - 1\<close>, bumps the buffer pointer
  by \<open>2 ^ 32\<close> bytes and returns code 8 every time; over \<open>2 ^ 29\<close> nibbles of code 8
  (every nibble byte 0x88) getSizeOfPackedValues returns 0.
\<close>

theorem C7_counterexample:
  "pack_all (\<lambda>_. 0xFF) 0 (replicate (2 ^ 29) (VU64 (- 1))) =
     Inr (\<lambda>_. 0xFF, 2 ^ 32, replicate (2 ^ 29) 8) \<and>
   first 0x88 = 8 \<and> second 0x88 = 8 \<and>
   getSizeOfPackedValues (\<lambda>_. 0x88) 0 (2 ^ 29) = 0"
proof -
  have "pack_all (\<lambda>_. 0xFF) 0 (replicate (2 ^ 29) (VU64 (- 1))) =
     Inr (\<lambda>_. 0xFF, 0 + 8 * int (2 ^ 29), replicate (2 ^ 29) 8)"
    by (rule pack_all_ones)
  moreover have "getSizeOfPackedValues (\<lambda>_. 0x88) 0 (2 ^ 29) = 0"
    by (simp only: getSize_eights) simp
  ultimately show ?thesis
    by (simp add: first_def second_def)
qed

text \<open>
  C7, amended (size of a run). For every run of \<open>N\<close> values packed one after the other,
  \<open>N < 2 ^ 32\<close>, whose codes are the first \<open>N\<close> nibbles of a nibble stream (two per
  byte, low nibble first): when the pack calls bumped the buffer pointer by fewer than
  \<open>2 ^ 32\<close> bytes in total, getSizeOfPackedValues over those \<open>N\<close> nibbles is that
  total, for even and for odd \<open>N\<close>. (In general it is the total modulo \<open>2 ^ 32\<close>:
  lemma \<open>size_of_run\<close>.)
\<close>

theorem C7_size_of_run:
  assumes p: "pack_all m0 buffer vs = Inr (m1, buffer', codes)"
    and nib: "\<forall>k < length vs. nibble_at m nibbles k = of_nat (codes ! k)"
    and n: "length vs < 2 ^ 32"
    and total: "buffer' - buffer < 2 ^ 32"
  shows "uint (getSizeOfPackedValues m nibbles (of_nat (length vs))) = buffer' - buffer"
proof -
  define d where "d = buffer' - buffer"
  have "0 \<le> d"
    using pack_all_widths [OF p] by (simp add: d_def)
  moreover have "d < 2 ^ 32"
    using total by (simp add: d_def)
  ultimately have "uint (word_of_int d :: 32 word) = d"
    by (simp add: uint_word_of_int_eq take_bit_int_eq_self)
  then show ?thesis
    by (simp only: size_of_run [OF p nib n] d_def)
qed

theorem C7_size_of_run_witness:
  "pack_all (\<lambda>_. 0) 2 [VU32 256, VI32 (- 5), VDouble 0x40091EB851EB851F] =
     Inr (fst (projr (pack_all (\<lambda>_. 0) 2 [VU32 256, VI32 (- 5), VDouble 0x40091EB851EB851F])),
          13, [2, 9, 8]) \<and>
   nibble_at ((\<lambda>_. 0)(0 := 0x92, 1 := 0x08)) 0 0 = 2 \<and>
   nibble_at ((\<lambda>_. 0)(0 := 0x92, 1 := 0x08)) 0 1 = 9 \<and>
   nibble_at ((\<lambda>_. 0)(0 := 0x92, 1 := 0x08)) 0 2 = 8 \<and>
   uint (getSizeOfPackedValues ((\<lambda>_. 0)(0 := 0x92, 1 := 0x08)) 0 3) = 11"
proof -
  let ?vs = "[VU32 256, VI32 (- 5), VDouble 0x40091EB851EB851F]"
  let ?m = "(\<lambda>_. 0)(0 := 0x92, 1 := 0x08) :: mem"
  have p: "pack_all (\<lambda>_. 0) 2 ?vs = Inr (fst (projr (pack_all (\<lambda>_. 0) 2 ?vs)), 13, [2, 9, 8])"
    by (simp add: pack_unsigned_def pack_int32_def negate_def pack_floating_def word_sle_eq)
  have k: "nibble_at ?m 0 0 = 2" "nibble_at ?m 0 1 = 9" "nibble_at ?m 0 2 = 8"
    by (simp_all add: nibble_at_def first_def second_def)
  have nib: "\<forall>k < length ?vs. nibble_at ?m 0 k = of_nat ([2, 9, 8] ! k)"
    using k by (auto simp: less_Suc_eq numeral_3_eq_3 numeral_2_eq_2)
  have n: "length ?vs < 2 ^ 32" and total: "(13::int) - 2 < 2 ^ 32"
    by simp_all
  from C7_size_of_run [OF p nib n total] p k show ?thesis
    by simp
qed

section \<open>Reading a stream back with the Nibbler\<close>

lemma pack_unsigned_before:
  assumes "pack_unsigned m b x = (m', b', c)" and "a < b"
  shows "m' a = m a"
  using assms by (auto simp: pack_unsigned_def Let_def memcpy_from_def)

lemma pack_before:
  assumes p: "pack m b v = Inr (m', b', c)" and a: "a < b"
  shows "m' a = m a"
proof (cases v)
  case (VI32 x)
  with p have "pack_int32 m b x = Inr (m', b', c)" by simp
  then show ?thesis
    using a pack_unsigned_before [of m b x _ _ _ a] pack_unsigned_before [of m b "- x" _ _ _ a]
    by (auto simp: pack_int32_branches split: if_splits prod.splits)
next
  case (VI64 x)
  with p have "pack_int64 m b x = Inr (m', b', c)" by simp
  then show ?thesis
    using a pack_unsigned_before [of m b x _ _ _ a] pack_unsigned_before [of m b "- x" _ _ _ a]
    by (auto simp: pack_int64_branches split: if_splits prod.splits)
next
  case (VLongLong x)
  with p have "pack_int64 m b x = Inr (m', b', c)" by (simp add: pack_longlong_eq)
  then show ?thesis
    using a pack_unsigned_before [of m b x _ _ _ a] pack_unsigned_before [of m b "- x" _ _ _ a]
    by (auto simp: pack_int64_branches split: if_splits prod.splits)
qed (use p a in \<open>auto simp: pack_pointer_def pack_floating_def memcpy_from_def
      dest: pack_unsigned_before\<close>)

lemma pack_all_before:
  assumes "pack_all m b vs = Inr (m', b', codes)"
  shows "b \<le> b' \<and> (\<forall>a < b. m' a = m a)"
  using assms
proof (induction vs arbitrary: m b codes)
  case Nil
  then show ?case by simp
next
  case (Cons v vs)
  from Cons.prems obtain ma ba c cs where p: "pack m b v = Inr (ma, ba, c)"
    and r: "pack_all ma ba vs = Inr (m', b', cs)" and c: "codes = c # cs"
    by (rule pack_all_Cons)
  have "b \<le> ba" using pack_width(3) [OF p] by simp
  with Cons.IH [OF r] pack_before [OF p] show ?case
    by auto
qed

lemma code_width_pos:
  assumes "1 \<le> c" and "c \<le> 15"
  shows "1 \<le> code_width (of_nat c)"
  using assms by (auto simp: code_width_of_code)

lemma getNext_all_run:
  assumes "pack_all m0 b vs = Inr (m1, vend, codes)"
    and "\<forall>a. b \<le> a \<and> a < vend \<longrightarrow> m a = m1 a"
    and "\<forall>k < length vs. nibble_at m p (j + k) = of_nat (codes ! k)"
    and "nibblePosition nb = p + int (j div 2)" and "onFirstNibble nb = even j"
    and "currPackedValue nb = b" and "endOfValues nb = vend"
  shows "\<exists>nb'. getNext_all f2d m nb (map type_of vs) = Inr (vs, nb')"
  using assms
proof (induction vs arbitrary: m0 b codes j nb)
  case Nil
  show ?case by simp
next
  case (Cons v vs)
  from Cons.prems(1) obtain ma ba c cs where p: "pack m0 b v = Inr (ma, ba, c)"
    and r: "pack_all ma ba vs = Inr (m1, vend, cs)" and c: "codes = c # cs"
    by (rule pack_all_Cons)
  note w = pack_width [OF p]
  note f = pack_all_before [OF r]
  have lt: "b < ba" using w code_width_pos [OF w(1,2)] by simp
  with f have bv: "b < vend" by simp
  have nib0: "nibble_at m p j = of_nat c"
    using Cons.prems(3) [rule_format, of 0] c by simp
  have agree: "\<forall>a. b \<le> a \<and> a < ba \<longrightarrow> m a = ma a"
    using Cons.prems(2) f by auto
  have u: "unpack_as f2d (type_of v) m b (of_nat c) = Inr (v, ba)"
    by (rule pack_unpack_as [OF p agree])
  define nb1 where "nb1 = nb\<lparr> currPackedValue := ba,
      nibblePosition := (if \<not> onFirstNibble nb then nibblePosition nb + 1 else nibblePosition nb),
      onFirstNibble := \<not> onFirstNibble nb \<rparr>"
  have nibble: "(if onFirstNibble nb then first (m (nibblePosition nb))
                 else second (m (nibblePosition nb))) = of_nat c"
    using nib0 Cons.prems(4,5) by (auto simp: nibble_at_def split: if_splits)
  have g: "getNext f2d (type_of v) m nb = Inr (v, nb1)"
    using bv Cons.prems(6,7) u
    by (simp add: getNext_def nibble nb1_def)
  have pos: "nibblePosition nb1 = p + int (Suc j div 2)"
    using Cons.prems(4,5) by (cases "even j") (simp_all add: nb1_def)
  have "\<exists>nb'. getNext_all f2d m nb1 (map type_of vs) = Inr (vs, nb')"
  proof (rule Cons.IH [OF r, of "Suc j"])
    show "\<forall>a. ba \<le> a \<and> a < vend \<longrightarrow> m a = m1 a"
      using Cons.prems(2) lt by simp
    show "\<forall>k < length vs. nibble_at m p (Suc j + k) = of_nat (cs ! k)"
      using Cons.prems(3) c by (auto dest: spec [of _ "Suc k" for k])
    show "nibblePosition nb1 = p + int (Suc j div 2)" by (rule pos)
    show "onFirstNibble nb1 = even (Suc j)"
      using Cons.prems(5) by (simp add: nb1_def)
    show "currPackedValue nb1 = ba" by (simp add: nb1_def)
    show "endOfValues nb1 = vend" using Cons.prems(7) by (simp add: nb1_def)
  qed
  with g show ?case by auto
qed

lemma memcpy_from_ones_over:
  assumes "\<forall>a. b \<le> a \<and> a < b + 8 \<longrightarrow> m a = 0xFF"
  shows "memcpy_from m b (- 1 :: 64 word) 8 = m"
proof
  fix a :: addr
  show "memcpy_from m b (- 1 :: 64 word) 8 a = m a"
  proof (cases "b \<le> a \<and> a < b + 8")
    case True
    then have k: "8 * nat (a - b) \<le> 56" by linarith
    have "(ucast (drop_bit (8 * nat (a - b)) (- 1 :: 64 word)) :: byte) = - 1"
      by (rule bit_word_eqI) (use k in \<open>auto simp: bit_ucast_iff bit_drop_bit_eq bit_mask_iff\<close>)
    with True assms show ?thesis by (simp add: memcpy_from_def)
  next
    case False
    then show ?thesis by (auto simp: memcpy_from_def)
  qed
qed

lemma pack_all_ones_over:
  assumes "\<forall>a. b \<le> a \<longrightarrow> m a = 0xFF"
  shows "pack_all m b (replicate n (VU64 (- 1))) = Inr (m, b + 8 * int n, replicate n 8)"
  using assms
proof (induction n arbitrary: b)
  case 0
  show ?case by simp
next
  case (Suc n)
  have "memcpy_from m b (- 1 :: 64 word) 8 = m"
    by (rule memcpy_from_ones_over) (use Suc.prems in simp)
  then have "pack m b (VU64 (- 1)) = Inr (m, b + 8, 8)"
    by (simp add: pack_unsigned_def)
  moreover have "pack_all m (b + 8) (replicate n (VU64 (- 1))) =
      Inr (m, b + 8 + 8 * int n, replicate n 8)"
    by (rule Suc.IH) (use Suc.prems in simp)
  ultimately show ?case
    by (simp add: algebra_simps)
qed

lemma getSize_eights_below:
  assumes "\<forall>a. p \<le> a \<and> a < p + int ((unat N + 1) div 2) \<longrightarrow> m a = 0x88"
  shows "getSizeOfPackedValues m p N = 8 * N"
proof -
  have "nibble_at m p k = 8" if "k < unat N" for k
  proof -
    from that have "k div 2 < (unat N + 1) div 2" by linarith
    then have "m (p + int (k div 2)) = 0x88" using assms by simp
    then show ?thesis by (simp add: nibble_at_def first_def second_def)
  qed
  then have "(\<Sum>k < unat N. code_width (nibble_at m p k)) = (\<Sum>k < unat N. code_width 8)"
    by (intro sum.cong) simp_all
  then have "getSizeOfPackedValues m p N = of_nat (\<Sum>k < unat N. code_width 8)"
    by (simp only: getSizeOfPackedValues_sum)
  also have "\<dots> = 8 * N"
    by (simp add: code_width_def)
  finally show ?thesis .
qed

text \<open>
  C5 as stated fails for long streams. Take \<open>2 ^ 29\<close> values of type uint64_t, each
  \<open>2 ^ 64 - 1\<close>: their codes are all 8, so the nibble bytes are \<open>2 ^ 28\<close> bytes 0x88, and
  the \<open>2 ^ 32\<close> value bytes after them are all 0xFF. The constructor computes the end of
  the values with getSizeOfPackedValues, which wraps to 0, so \<open>endOfValues\<close> equals
  \<open>currPackedValue\<close> and the assertion of the first \<open>getNext\<close> fails.
\<close>

theorem C5_counterexample:
  "pack_all (\<lambda>a. if a < 2 ^ 28 then 0x88 else 0xFF) (2 ^ 28) (replicate (2 ^ 29) (VU64 (- 1))) =
     Inr (\<lambda>a. if a < 2 ^ 28 then 0x88 else 0xFF, 2 ^ 28 + 2 ^ 32, replicate (2 ^ 29) 8) \<and>
   first 0x88 = 8 \<and> second 0x88 = 8 \<and>
   currPackedValue (Nibbler_ctor (\<lambda>a. if a < 2 ^ 28 then 0x88 else 0xFF) 0 (2 ^ 29)) = 2 ^ 28 \<and>
   endOfValues (Nibbler_ctor (\<lambda>a. if a < 2 ^ 28 then 0x88 else 0xFF) 0 (2 ^ 29)) = 2 ^ 28 \<and>
   getNext (\<lambda>_. 0) TU64 (\<lambda>a. if a < 2 ^ 28 then 0x88 else 0xFF)
     (Nibbler_ctor (\<lambda>a. if a < 2 ^ 28 then 0x88 else 0xFF) 0 (2 ^ 29)) = Inl AssertionFailed"
proof -
  let ?m = "\<lambda>a::addr. if a < 2 ^ 28 then 0x88 else 0xFF :: byte"
  have "pack_all ?m (2 ^ 28) (replicate (2 ^ 29) (VU64 (- 1))) =
      Inr (?m, 2 ^ 28 + 8 * int (2 ^ 29), replicate (2 ^ 29) 8)"
    by (rule pack_all_ones_over) simp
  then have a: "pack_all ?m (2 ^ 28) (replicate (2 ^ 29) (VU64 (- 1))) =
      Inr (?m, 2 ^ 28 + 2 ^ 32, replicate (2 ^ 29) 8)"
    by simp
  have "getSizeOfPackedValues ?m 0 (2 ^ 29) = 8 * 2 ^ 29"
    by (rule getSize_eights_below) simp
  then have g: "getSizeOfPackedValues ?m 0 (2 ^ 29) = 0"
    by simp
  have c: "currPackedValue (Nibbler_ctor ?m 0 (2 ^ 29)) = 2 ^ 28"
    by (simp add: Nibbler_ctor_def signed_divide_int_def)
  have e: "endOfValues (Nibbler_ctor ?m 0 (2 ^ 29)) = 2 ^ 28"
    using g by (simp add: Nibbler_ctor_def signed_divide_int_def)
  have "getNext (\<lambda>_. 0) TU64 ?m (Nibbler_ctor ?m 0 (2 ^ 29)) = Inl AssertionFailed"
    by (simp only: getNext_def c e) simp
  with a c e show ?thesis
    by (simp add: first_def second_def)
qed

text \<open>
  C5, amended (order). Let \<open>n\<close> values of supported types be packed in order into one
  buffer, \<open>n + 1 < 2 ^ 31\<close>, the pack calls bumping the buffer pointer by fewer than
  \<open>2 ^ 32\<close> bytes in total. Let a store hold, from \<open>nibbleStart\<close> on, the \<open>n\<close> codes as
  nibbles (two per byte, low nibble first, \<open>(n + 1) div 2\<close> bytes) and right after them
  the value bytes as the pack calls left them. Then a Nibbler constructed over
  \<open>nibbleStart\<close> and \<open>n\<close> returns exactly the \<open>n\<close> values, in order, when \<open>getNext\<close> is
  called \<open>n\<close> times with the type of each value; no assertion fails.
\<close>

theorem C5_nibbler_order:
  assumes p: "pack_all m0 vstart vs = Inr (m1, vend, codes)"
    and layout: "vstart = nibbleStart + int ((length vs + 1) div 2)"
    and vals: "\<forall>a. vstart \<le> a \<and> a < vend \<longrightarrow> m a = m1 a"
    and nib: "\<forall>k < length vs. nibble_at m nibbleStart k = of_nat (codes ! k)"
    and n: "int (length vs) + 1 < 2 ^ 31"
    and total: "vend - vstart < 2 ^ 32"
  shows "\<exists>nb'. getNext_all f2d m (Nibbler_ctor m nibbleStart (int (length vs))) (map type_of vs)
           = Inr (vs, nb')"
proof -
  let ?nb = "Nibbler_ctor m nibbleStart (int (length vs))"
  have n32: "length vs < 2 ^ 32" using n by simp
  have half: "(int (length vs) + 1) sdiv 2 = int ((length vs + 1) div 2)"
    by (simp add: signed_divide_int_def sgn_if zdiv_int)
  define d where "d = vend - vstart"
  have "0 \<le> d" using pack_all_widths [OF p] by (simp add: d_def)
  moreover have "d < 2 ^ 32" using total by (simp add: d_def)
  ultimately have "uint (word_of_int d :: 32 word) = d"
    by (simp add: uint_word_of_int_eq take_bit_int_eq_self)
  then have sz: "uint (getSizeOfPackedValues m nibbleStart (of_nat (length vs))) = vend - vstart"
    by (simp only: size_of_run [OF p nib n32] d_def)
  have c: "currPackedValue ?nb = vstart"
    by (simp add: Nibbler_ctor_def half layout)
  have e: "endOfValues ?nb = vend"
    using sz by (simp add: Nibbler_ctor_def half layout)
  show ?thesis
  proof (rule getNext_all_run [OF p vals, of nibbleStart 0])
    show "\<forall>k < length vs. nibble_at m nibbleStart (0 + k) = of_nat (codes ! k)"
      using nib by simp
    show "nibblePosition ?nb = nibbleStart + int (0 div 2)"
      by (simp add: Nibbler_ctor_def)
    show "onFirstNibble ?nb = even (0::nat)"
      by (simp add: Nibbler_ctor_def)
    show "currPackedValue ?nb = vstart" by (rule c)
    show "endOfValues ?nb = vend" by (rule e)
  qed
qed

theorem C5_nibbler_order_witness:
  "\<exists>nb'. getNext_all (\<lambda>_. 0)
       ((fst (projr (pack_all (\<lambda>_. 0) 2 [VU32 256, VI32 (- 5), VDouble 0x40091EB851EB851F])))
          (0 := 0x92, 1 := 0x08))
       (Nibbler_ctor
          ((fst (projr (pack_all (\<lambda>_. 0) 2 [VU32 256, VI32 (- 5), VDouble 0x40091EB851EB851F])))
             (0 := 0x92, 1 := 0x08)) 0 (int (length [VU32 256, VI32 (- 5), VDouble 0x40091EB851EB851F])))
       (map type_of [VU32 256, VI32 (- 5), VDouble 0x40091EB851EB851F])
     = Inr ([VU32 256, VI32 (- 5), VDouble 0x40091EB851EB851F], nb')"
proof -
  let ?vs = "[VU32 256, VI32 (- 5), VDouble 0x40091EB851EB851F]"
  define m1 where "m1 = fst (projr (pack_all (\<lambda>_. 0) 2 ?vs))"
  define m where "m = m1(0 := 0x92, 1 := 0x08)"
  have p: "pack_all (\<lambda>_. 0) 2 ?vs = Inr (m1, 13, [2, 9, 8])"
    unfolding m1_def
    by (simp add: pack_unsigned_def pack_int32_def negate_def pack_floating_def word_sle_eq)
  have layout: "(2::int) = 0 + int ((length ?vs + 1) div 2)"
    by simp
  have vals: "\<forall>a. 2 \<le> a \<and> a < 13 \<longrightarrow> m a = m1 a"
    by (simp add: m_def)
  have k: "nibble_at m 0 0 = 2" "nibble_at m 0 1 = 9" "nibble_at m 0 2 = 8"
    by (simp_all add: m_def nibble_at_def first_def second_def)
  have nib: "\<forall>k < length ?vs. nibble_at m 0 k = of_nat ([2, 9, 8] ! k)"
    using k by (auto simp: less_Suc_eq numeral_3_eq_3 numeral_2_eq_2)
  have n: "int (length ?vs) + 1 < 2 ^ 31" and total: "(13::int) - 2 < 2 ^ 32"
    by simp_all
  from C5_nibbler_order [OF p layout vals nib n total, of "\<lambda>_. 0"]
  show ?thesis
    unfolding m_def m1_def .
qed

end
